theory Spec2Isabelle
  imports Main "HOL-Library.Multiset"
begin

section \<open>Documents and collections\<close>

text \<open>
  The script \<^verbatim>\<open>break_up_large_documents.py\<close> works on three MongoDB collections:
  \<^verbatim>\<open>builds\<close>, \<^verbatim>\<open>tests\<close> and \<^verbatim>\<open>logs\<close>. A document identity (\<^verbatim>\<open>_id\<close>, an ObjectId) is
  a natural number here; a collection is the list of its documents, each paired with its
  identity, in insertion order. Python integers are \<open>int\<close>; the result of \<^verbatim>\<open>len\<close> is a
  \<open>nat\<close>. A line is the pair of its timestamp and its payload (\<^verbatim>\<open>line[1]\<close> in the source).
  The \<^verbatim>\<open>test_id\<close> key of a log is either absent (\<open>None\<close>) or holds the identity of a test.
\<close>

type_synonym oid = nat

datatype datetime = Datetime nat nat nat nat nat nat nat

type_synonym line = "datetime \<times> string"

record build_doc =
  build_name :: string
  build_seq :: int

record test_doc =
  test_name :: string
  test_build_id :: oid
  test_seq :: int

record log_doc =
  build_id :: oid
  test_id :: "oid option"
  seq :: int
  started :: datetime
  lines :: "line list"

type_synonym 'd collection = "(oid \<times> 'd) list"

record db =
  builds :: "build_doc collection"
  tests :: "test_doc collection"
  logs :: "log_doc collection"

subsection \<open>The store operations the script calls\<close>

text \<open>
  Modelled from the spec: the collection methods of pymongo (\<^verbatim>\<open>insert_one\<close>, \<^verbatim>\<open>insert_many\<close>,
  \<^verbatim>\<open>find_one\<close>, \<^verbatim>\<open>update_one\<close>, \<^verbatim>\<open>update_many\<close>, \<^verbatim>\<open>delete_one\<close>, \<^verbatim>\<open>find().sort\<close>) are a
  library outside the repository. They follow the store contract of the specification:
  an insert gives each new document an identity that no document of the collection has
  (here: one more than the largest), \<^verbatim>\<open>update_one\<close>, \<^verbatim>\<open>find_one\<close> and \<^verbatim>\<open>delete_one\<close> act on
  the first matching document, \<^verbatim>\<open>update_many\<close> on every matching one.
\<close>

definition new_oid :: "'d collection \<Rightarrow> oid" where
  "new_oid coll = (if coll = [] then 0 else Suc (fold max (map fst coll) 0))"

definition insert_one :: "'d collection \<Rightarrow> 'd \<Rightarrow> 'd collection" where
  "insert_one coll d = coll @ [(new_oid coll, d)]"

definition insert_many :: "'d collection \<Rightarrow> 'd list \<Rightarrow> 'd collection" where
  "insert_many coll ds = fold (\<lambda>d c. insert_one c d) ds coll"

definition find_one :: "(oid \<times> 'd \<Rightarrow> bool) \<Rightarrow> 'd collection \<Rightarrow> (oid \<times> 'd) option" where
  "find_one p coll = find p coll"

fun update_one :: "(oid \<times> 'd \<Rightarrow> bool) \<Rightarrow> ('d \<Rightarrow> 'd) \<Rightarrow> 'd collection \<Rightarrow> 'd collection" where
  "update_one p f [] = []"
| "update_one p f (e # coll) =
     (if p e then (fst e, f (snd e)) # coll else e # update_one p f coll)"

definition update_many :: "(oid \<times> 'd \<Rightarrow> bool) \<Rightarrow> ('d \<Rightarrow> 'd) \<Rightarrow> 'd collection \<Rightarrow> 'd collection" where
  "update_many p f coll = map (\<lambda>e. if p e then (fst e, f (snd e)) else e) coll"

fun delete_one :: "(oid \<times> 'd \<Rightarrow> bool) \<Rightarrow> 'd collection \<Rightarrow> 'd collection" where
  "delete_one p [] = []"
| "delete_one p (e # coll) = (if p e then coll else e # delete_one p coll)"

definition has_id :: "oid \<Rightarrow> oid \<times> 'd \<Rightarrow> bool" where
  "has_id i e = (fst e = i)"

section \<open>Size Evaluator\<close>

definition max_size :: nat where
  "max_size = 4 * 1024 * 1024"

text \<open>
  Lines 135--137: \<^verbatim>\<open>size = 0; for line in log["lines"]: size += len(line[1])\<close>.
\<close>

definition log_size :: "line list \<Rightarrow> nat" where
  "log_size ls = fold (\<lambda>line size. size + length (snd line)) ls 0"

section \<open>Chunk Splitter\<close>

text \<open>
  Lines 150--155 and 164--169: a new log inherits \<^verbatim>\<open>build_id\<close>, \<^verbatim>\<open>started\<close> and (when the
  key is present) \<^verbatim>\<open>test_id\<close> of the log being broken up, and starts with no lines.
\<close>

definition mk_new_log :: "log_doc \<Rightarrow> int \<Rightarrow> log_doc" where
  "mk_new_log log s =
     \<lparr>build_id = build_id log, test_id = test_id log, seq = s,
      started = started log, lines = []\<rparr>"

text \<open>
  Lines 160--175, the loop over \<^verbatim>\<open>log["lines"]\<close>. Its variables are \<^verbatim>\<open>seq\<close>, \<^verbatim>\<open>new_log\<close>,
  \<^verbatim>\<open>new_log_size\<close> and \<^verbatim>\<open>new_logs\<close>. In the source \<^verbatim>\<open>new_log\<close> is the same object as the
  last element of \<^verbatim>\<open>new_logs\<close>, so appending a line to it changes the list too; the
  argument \<open>closed\<close> holds the elements of \<^verbatim>\<open>new_logs\<close> before that last one, and the list
  \<^verbatim>\<open>new_logs\<close> is \<open>closed @ [new_log]\<close> throughout. The result is the final \<^verbatim>\<open>seq\<close> and
  the final \<^verbatim>\<open>new_logs\<close>.
\<close>

fun split_lines ::
  "log_doc \<Rightarrow> line list \<Rightarrow> int \<Rightarrow> log_doc \<Rightarrow> nat \<Rightarrow> log_doc list \<Rightarrow> int \<times> log_doc list" where
  "split_lines log [] s new_log new_log_size closed = (s, closed @ [new_log])"
| "split_lines log (line # rest) s new_log new_log_size closed =
     (if new_log_size + length (snd line) > max_size
      then split_lines log rest (s + 1)
             ((mk_new_log log (s + 1))\<lparr>lines := lines (mk_new_log log (s + 1)) @ [line]\<rparr>)
             (0 + length (snd line)) (closed @ [new_log])
      else split_lines log rest s
             (new_log\<lparr>lines := lines new_log @ [line]\<rparr>)
             (new_log_size + length (snd line)) closed)"

text \<open>Lines 149--175: the splitter started on a log, from an empty first new log.\<close>

definition split_log :: "log_doc \<Rightarrow> int \<times> log_doc list" where
  "split_log log = split_lines log (lines log) (seq log) (mk_new_log log (seq log)) 0 []"

section \<open>Sequence Renumberer and Migration Driver\<close>

text \<open>
  The filter of \<^verbatim>\<open>update_many\<close> at lines 180--183: same \<^verbatim>\<open>build_id\<close>, same \<^verbatim>\<open>test_id\<close>
  (\<^verbatim>\<open>log.get("test_id")\<close> is \<open>None\<close> for a log without the key, and matches the logs
  without it), and a larger \<^verbatim>\<open>seq\<close>.
\<close>

definition later_log :: "log_doc \<Rightarrow> oid \<times> log_doc \<Rightarrow> bool" where
  "later_log log e =
     (build_id (snd e) = build_id log \<and> test_id (snd e) = test_id log \<and> seq (snd e) > seq log)"

text \<open>
  Lines 134--194, the body of the loop over the logs, for the log \<open>entry\<close> the cursor
  delivers (its identity and its fields). The progress messages are not modelled.
\<close>

definition process_log :: "db \<Rightarrow> oid \<times> log_doc \<Rightarrow> db" where
  "process_log st entry =
     (let log = snd entry in
      if log_size (lines log) \<le> max_size then st
      else
        let (s, new_logs) = split_log log;
            inc = s - seq log;
            st1 = st\<lparr>logs := update_many (later_log log) (\<lambda>d. d\<lparr>seq := seq d + inc\<rparr>) (logs st)\<rparr>;
            st2 = (case test_id log of
                     Some t \<Rightarrow>
                       st1\<lparr>tests := update_one (has_id t)
                                       (\<lambda>d. d\<lparr>test_seq := test_seq d + inc\<rparr>) (tests st1)\<rparr>
                   | None \<Rightarrow>
                       st1\<lparr>builds := update_one (has_id (build_id log))
                                        (\<lambda>d. d\<lparr>build_seq := build_seq d + inc\<rparr>) (builds st1)\<rparr>);
            st3 = st2\<lparr>logs := insert_many (logs st2) new_logs\<rparr>
        in st3\<lparr>logs := delete_one (has_id (fst entry)) (logs st3)\<rparr>)"

text \<open>
  Modelled from the spec: the cursor \<^verbatim>\<open>logs.find().sort("_id", pymongo.ASCENDING)\<close> of
  line 129 belongs to pymongo. Following the store contract of the specification (an
  ordered full scan, ascending by identity, over the logs present when the scan starts),
  the identities to visit are fixed at the start; each log is read when its turn comes,
  so it carries the \<^verbatim>\<open>seq\<close> that earlier iterations have given it.
\<close>

definition scan_ids :: "db \<Rightarrow> oid list" where
  "scan_ids st = sort (map fst (logs st))"

definition visit :: "oid \<Rightarrow> db \<Rightarrow> db" where
  "visit i st = (case find_one (has_id i) (logs st) of
                   None \<Rightarrow> st
                 | Some entry \<Rightarrow> process_log st entry)"

definition break_up_large_documents :: "db \<Rightarrow> db" where
  "break_up_large_documents st = fold visit (scan_ids st) st"

section \<open>The self-test\<close>

text \<open>
  Lines 17--121, the function \<^verbatim>\<open>test\<close>. It builds a fixture in an empty database (a
  build owning three logs directly, and a build with a test owning three logs of the same
  layout), runs the migration, and compares the result with what it expects. The calls
  of \<^verbatim>\<open>datetime.utcnow()\<close> are the parameter \<open>utcnow\<close>, numbered in call order. The
  outcome is the message printed, or \<open>Raised\<close> when the source would raise (a missing
  document, an index out of range). The query \<^verbatim>\<open>logs.find({...}).sort("seq")\<close> of lines 81
  and 104 is \<open>scope_logs\<close>.
\<close>

definition line_size :: nat where
  "line_size = 3 * 1024 * 1024"

definition dates :: "datetime list" where
  "dates = [Datetime 2015 1 1 0 0 0 0, Datetime 2015 2 1 0 0 0 0,
            Datetime 2015 2 1 0 0 0 0, Datetime 2015 3 1 0 0 0 0]"

definition has_name :: "string \<Rightarrow> oid \<times> build_doc \<Rightarrow> bool" where
  "has_name n e = (build_name (snd e) = n)"

definition test_has_name :: "string \<Rightarrow> oid \<times> test_doc \<Rightarrow> bool" where
  "test_has_name n e = (test_name (snd e) = n)"

record fixture =
  fx_global_build :: oid
  fx_build :: oid
  fx_test :: oid
  fx_db :: db

definition three_logs :: "(nat \<Rightarrow> datetime) \<Rightarrow> nat \<Rightarrow> oid \<Rightarrow> oid option \<Rightarrow> log_doc list" where
  "three_logs utcnow k b t =
     [\<lparr>build_id = b, test_id = t, seq = 1, started = dates ! 0,
       lines = [(utcnow k, replicate line_size CHR ''1'')]\<rparr>,
      \<lparr>build_id = b, test_id = t, seq = 2, started = dates ! 1,
       lines = [(utcnow (k + 1), replicate line_size CHR ''2''),
                (utcnow (k + 2), replicate line_size CHR ''3'')]\<rparr>,
      \<lparr>build_id = b, test_id = t, seq = 3, started = dates ! 3,
       lines = [(utcnow (k + 3), replicate line_size CHR ''4'')]\<rparr>]"

definition test_setup :: "(nat \<Rightarrow> datetime) \<Rightarrow> fixture option" where
  "test_setup utcnow =
     (let builds1 = insert_one [] \<lparr>build_name = ''global_build'', build_seq = 3\<rparr> in
      case find_one (has_name ''global_build'') builds1 of
        None \<Rightarrow> None
      | Some global_build \<Rightarrow>
          let logs1 = fold (\<lambda>d c. insert_one c d)
                        (three_logs utcnow 0 (fst global_build) None) [];
              builds2 = insert_one builds1 \<lparr>build_name = ''build'', build_seq = 0\<rparr>
          in case find_one (has_name ''build'') builds2 of
               None \<Rightarrow> None
             | Some build \<Rightarrow>
                 let tests1 = insert_one []
                       \<lparr>test_name = ''test'', test_build_id = fst build, test_seq = 3\<rparr>
                 in case find_one (test_has_name ''test'') tests1 of
                      None \<Rightarrow> None
                    | Some test \<Rightarrow>
                        let logs2 = fold (\<lambda>d c. insert_one c d)
                              (three_logs utcnow 4 (fst build) (Some (fst test))) logs1
                        in Some \<lparr>fx_global_build = fst global_build, fx_build = fst build,
                                 fx_test = fst test,
                                 fx_db = \<lparr>builds = builds2, tests = tests1, logs = logs2\<rparr>\<rparr>)"

datatype outcome =
    All_tests_passed
  | Global_build_wrong_seq
  | Build_wrong_seq
  | Test_wrong_seq
  | Log_wrong_seq bool int int
  | Log_wrong_started bool int datetime
  | Log_wrong_number_of_lines bool int nat
  | Log_wrong_first_char bool int char
  | Raised

definition py_index :: "'a list \<Rightarrow> int \<Rightarrow> 'a option" where
  "py_index xs i =
     (if 0 \<le> i \<and> i < int (length xs) then Some (xs ! nat i)
      else if - int (length xs) \<le> i \<and> i < 0 then Some (xs ! nat (int (length xs) + i))
      else None)"

fun str_nat :: "nat \<Rightarrow> string" where
  "str_nat n =
     (if n < 10 then [''0123456789'' ! n]
      else str_nat (n div 10) @ [''0123456789'' ! (n mod 10)])"

declare str_nat.simps [simp del]

definition str :: "int \<Rightarrow> string" where
  "str i = (if i < 0 then CHR ''-'' # str_nat (nat (- i)) else str_nat (nat i))"

fun check_logs :: "bool \<Rightarrow> log_doc collection \<Rightarrow> int \<Rightarrow> outcome option" where
  "check_logs g [] s = None"
| "check_logs g (e # rest) s =
     (let log = snd e in
      if seq log \<noteq> s then Some (Log_wrong_seq g s (seq log))
      else case py_index dates (s - 1) of
        None \<Rightarrow> Some Raised
      | Some d \<Rightarrow>
          if started log \<noteq> d then Some (Log_wrong_started g s (started log))
          else if length (lines log) \<noteq> 1
          then Some (Log_wrong_number_of_lines g s (length (lines log)))
          else (case lines log of
                  [] \<Rightarrow> Some Raised
                | l # _ \<Rightarrow>
                    (case snd l of
                       [] \<Rightarrow> Some Raised
                     | c # _ \<Rightarrow>
                         if [c] \<noteq> str s then Some (Log_wrong_first_char g s c)
                         else check_logs g rest (s + 1))))"

definition in_scope :: "oid \<Rightarrow> oid option \<Rightarrow> oid \<times> log_doc \<Rightarrow> bool" where
  "in_scope b t e = (build_id (snd e) = b \<and> test_id (snd e) = t)"

definition scope_logs :: "db \<Rightarrow> oid \<Rightarrow> oid option \<Rightarrow> log_doc collection" where
  "scope_logs st b t = sort_key (\<lambda>e. seq (snd e)) (filter (in_scope b t) (logs st))"

definition test_checks :: "fixture \<Rightarrow> db \<Rightarrow> outcome" where
  "test_checks fx st =
     (case find_one (has_id (fx_global_build fx)) (builds st) of
        None \<Rightarrow> Raised
      | Some gb \<Rightarrow>
          if build_seq (snd gb) \<noteq> 4 then Global_build_wrong_seq
          else case check_logs True (scope_logs st (fx_global_build fx) None) 1 of
            Some failure \<Rightarrow> failure
          | None \<Rightarrow>
              (case find_one (has_id (fx_build fx)) (builds st) of
                 None \<Rightarrow> Raised
               | Some b \<Rightarrow>
                   if build_seq (snd b) \<noteq> 0 then Build_wrong_seq
                   else case find_one (has_id (fx_test fx)) (tests st) of
                     None \<Rightarrow> Raised
                   | Some t \<Rightarrow>
                       if test_seq (snd t) \<noteq> 4 then Test_wrong_seq
                       else case check_logs False
                                   (scope_logs st (fx_build fx) (Some (fx_test fx))) 1 of
                         Some failure \<Rightarrow> failure
                       | None \<Rightarrow> All_tests_passed))"

definition test :: "(nat \<Rightarrow> datetime) \<Rightarrow> outcome" where
  "test utcnow =
     (case test_setup utcnow of
        None \<Rightarrow> Raised
      | Some fx \<Rightarrow> test_checks fx (break_up_large_documents (fx_db fx)))"

definition single_line_log ::
  "oid \<Rightarrow> oid option \<Rightarrow> int \<Rightarrow> datetime \<Rightarrow> datetime \<Rightarrow> char \<Rightarrow> log_doc" where
  "single_line_log b t s d ts c =
     \<lparr>build_id = b, test_id = t, seq = s, started = d, lines = [(ts, replicate line_size c)]\<rparr>"

definition migrated_logs :: "(nat \<Rightarrow> datetime) \<Rightarrow> nat \<Rightarrow> oid \<Rightarrow> oid option \<Rightarrow> log_doc list" where
  "migrated_logs utcnow k b t =
     [single_line_log b t 1 (Datetime 2015 1 1 0 0 0 0) (utcnow k) CHR ''1'',
      single_line_log b t 2 (Datetime 2015 2 1 0 0 0 0) (utcnow (k + 1)) CHR ''2'',
      single_line_log b t 3 (Datetime 2015 2 1 0 0 0 0) (utcnow (k + 2)) CHR ''3'',
      single_line_log b t 4 (Datetime 2015 3 1 0 0 0 0) (utcnow (k + 3)) CHR ''4'']"

definition counter_of :: "('d \<Rightarrow> int) \<Rightarrow> 'd collection \<Rightarrow> oid \<Rightarrow> int option" where
  "counter_of f coll i = map_option (\<lambda>e. f (snd e)) (find_one (has_id i) coll)"

section \<open>Specification predicates and sample stores\<close>

text \<open>
  A chunk fits when its payload is within the bound, or when it is a single line that is
  itself over the bound and cannot be split.
\<close>

definition fits :: "log_doc \<Rightarrow> bool" where
  "fits c = (log_size (lines c) \<le> max_size \<or>
             (\<exists>line. lines c = [line] \<and> length (snd line) > max_size))"

text \<open>Sample logs and stores, used to instantiate the theorems below.\<close>

definition one_big_line_log :: log_doc where
  "one_big_line_log =
     \<lparr>build_id = 0, test_id = None, seq = 1, started = Datetime 2015 1 1 0 0 0 0,
      lines = [(Datetime 2015 1 1 0 0 0 0, replicate (max_size + 1) CHR ''x'')]\<rparr>"

definition two_line_log :: log_doc where
  "two_line_log =
     \<lparr>build_id = 0, test_id = None, seq = 2, started = Datetime 2015 2 1 0 0 0 0,
      lines = [(Datetime 2015 2 1 0 0 0 0, replicate (3 * 1024 * 1024) CHR ''2''),
               (Datetime 2015 2 1 0 0 0 0, replicate (3 * 1024 * 1024) CHR ''3'')]\<rparr>"

definition one_log_store :: db where
  "one_log_store =
     \<lparr>builds = [(0, \<lparr>build_name = ''global_build'', build_seq = 1\<rparr>)], tests = [],
      logs = [(0, one_big_line_log)]\<rparr>"

definition small_log :: log_doc where
  "small_log =
     \<lparr>build_id = 0, test_id = None, seq = 1, started = Datetime 2015 1 1 0 0 0 0,
      lines = [(Datetime 2015 1 1 0 0 0 0, ''compliant'')]\<rparr>"

definition small_store :: db where
  "small_store =
     \<lparr>builds = [(0, \<lparr>build_name = ''global_build'', build_seq = 1\<rparr>)], tests = [],
      logs = [(0, small_log)]\<rparr>"

definition sample_now :: "nat \<Rightarrow> datetime" where
  "sample_now k = Datetime 2015 4 1 0 0 0 k"

definition scenario_store :: db where
  "scenario_store =
     \<lparr>builds = [(0, \<lparr>build_name = ''global_build'', build_seq = 3\<rparr>),
                (1, \<lparr>build_name = ''build'', build_seq = 0\<rparr>)],
      tests = [(0, \<lparr>test_name = ''test'', test_build_id = 1, test_seq = 3\<rparr>)],
      logs = zip [0 ..< 6]
               (three_logs sample_now 0 0 None @ three_logs sample_now 4 1 (Some 0))\<rparr>"

text \<open>
  The sequence invariant of the data model. The scope of a build is the logs with its
  identity and no \<^verbatim>\<open>test_id\<close>; the scope of a test is the logs with its identity as
  \<^verbatim>\<open>test_id\<close> and the identity of its build as \<^verbatim>\<open>build_id\<close>.
\<close>

definition scope_seqs :: "db \<Rightarrow> oid \<Rightarrow> oid option \<Rightarrow> int list" where
  "scope_seqs st b t = map (\<lambda>e. seq (snd e)) (filter (in_scope b t) (logs st))"

definition contiguous :: "int list \<Rightarrow> int \<Rightarrow> bool" where
  "contiguous ss n = (distinct ss \<and> set ss = {1..n} \<and> 0 \<le> n)"

definition test_under_build :: "db \<Rightarrow> oid \<times> log_doc \<Rightarrow> bool" where
  "test_under_build st e =
     (case test_id (snd e) of
        None \<Rightarrow> True
      | Some t \<Rightarrow>
          (case find_one (has_id t) (tests st) of
             None \<Rightarrow> True
           | Some td \<Rightarrow> test_build_id (snd td) = build_id (snd e)))"

definition well_formed :: "db \<Rightarrow> bool" where
  "well_formed st =
     (distinct (map fst (builds st)) \<and> distinct (map fst (tests st)) \<and>
      distinct (map fst (logs st)) \<and> list_all (test_under_build st) (logs st))"

definition build_scope_ok :: "db \<Rightarrow> oid \<times> build_doc \<Rightarrow> bool" where
  "build_scope_ok st e = contiguous (scope_seqs st (fst e) None) (build_seq (snd e))"

definition test_scope_ok :: "db \<Rightarrow> oid \<times> test_doc \<Rightarrow> bool" where
  "test_scope_ok st e =
     contiguous (scope_seqs st (test_build_id (snd e)) (Some (fst e))) (test_seq (snd e))"

definition seq_invariant :: "db \<Rightarrow> bool" where
  "seq_invariant st =
     (list_all (build_scope_ok st) (builds st) \<and> list_all (test_scope_ok st) (tests st))"

definition renumber :: "int \<Rightarrow> int \<Rightarrow> int \<Rightarrow> int" where
  "renumber s inc x = (if s < x then x + inc else x)"

text \<open>The store after the first \<open>k\<close> iterations of the scan.\<close>

definition scan_state :: "db \<Rightarrow> nat \<Rightarrow> db" where
  "scan_state st k = fold visit (take k (scan_ids st)) st"

text \<open>
  A log has small lines when none of its lines is by itself over the bound. During a run,
  \<open>pending st ids\<close> says that every log still over the bound is among the identities
  \<open>ids\<close> yet to be visited.
\<close>

definition small_lines :: "log_doc \<Rightarrow> bool" where
  "small_lines d = list_all (\<lambda>l. length (snd l) \<le> max_size) (lines d)"

definition pending :: "db \<Rightarrow> oid list \<Rightarrow> bool" where
  "pending st ids =
     (distinct (map fst (logs st)) \<and> list_all (\<lambda>e. small_lines (snd e)) (logs st) \<and>
      list_all (\<lambda>e. log_size (lines (snd e)) \<le> max_size \<or> fst e \<in> set ids) (logs st))"

section \<open>Facts about the size evaluator and the splitter\<close>

lemma fold_size_acc:
  "fold (\<lambda>line size. size + length (snd line)) ls a = a + sum_list (map (\<lambda>l. length (snd l)) ls)"
  by (induction ls arbitrary: a) auto

lemma log_size_sum: "log_size ls = sum_list (map (\<lambda>l. length (snd l)) ls)"
  by (simp add: log_size_def fold_size_acc)

lemma log_size_simps [simp]:
  "log_size [] = 0"
  "log_size (l # ls) = length (snd l) + log_size ls"
  "log_size (xs @ ys) = log_size xs + log_size ys"
  by (simp_all add: log_size_sum)

lemma split_lines_concat:
  "concat (map lines (snd (split_lines log ls s cur sz closed))) =
     concat (map lines closed) @ lines cur @ ls"
  by (induction ls arbitrary: s cur sz closed) (simp_all add: mk_new_log_def)

lemma split_lines_fst_ge: "s \<le> fst (split_lines log ls s cur sz closed)"
proof (induction ls arbitrary: s cur sz closed)
  case Nil
  show ?case by simp
next
  case (Cons line rest)
  show ?case
  proof (cases "sz + length (snd line) > max_size")
    case True
    have "s + 1 \<le> fst (split_lines log rest (s + 1)
             ((mk_new_log log (s + 1))\<lparr>lines := lines (mk_new_log log (s + 1)) @ [line]\<rparr>)
             (0 + length (snd line)) (closed @ [cur]))"
      by (rule Cons.IH)
    with True show ?thesis by simp
  next
    case False
    with Cons.IH [of s] show ?thesis by simp
  qed
qed

lemma split_lines_seqs:
  "seq cur = s \<Longrightarrow>
   map seq (snd (split_lines log ls s cur sz closed)) =
     map seq closed @ [s .. fst (split_lines log ls s cur sz closed)]"
proof (induction ls arbitrary: s cur sz closed)
  case Nil
  then show ?case by simp
next
  case (Cons line rest)
  show ?case
  proof (cases "sz + length (snd line) > max_size")
    case True
    let ?cur = "(mk_new_log log (s + 1))\<lparr>lines := lines (mk_new_log log (s + 1)) @ [line]\<rparr>"
    let ?r = "split_lines log rest (s + 1) ?cur (0 + length (snd line)) (closed @ [cur])"
    have "seq ?cur = s + 1" by (simp add: mk_new_log_def)
    from Cons.IH [OF this]
    have "map seq (snd ?r) = map seq (closed @ [cur]) @ [s + 1 .. fst ?r]" .
    moreover have "s + 1 \<le> fst ?r" by (rule split_lines_fst_ge)
    then have "[s .. fst ?r] = s # [s + 1 .. fst ?r]"
      by (simp add: upto_rec1)
    ultimately show ?thesis using True Cons.prems by simp
  next
    case False
    with Cons.IH [of "cur\<lparr>lines := lines cur @ [line]\<rparr>" s] Cons.prems
    show ?thesis by simp
  qed
qed

lemma split_lines_fits:
  "sz = log_size (lines cur) \<Longrightarrow> fits cur \<Longrightarrow> list_all fits closed \<Longrightarrow>
   list_all fits (snd (split_lines log ls s cur sz closed))"
proof (induction ls arbitrary: s cur sz closed)
  case Nil
  then show ?case by simp
next
  case (Cons line rest)
  show ?case
  proof (cases "sz + length (snd line) > max_size")
    case True
    let ?cur = "(mk_new_log log (s + 1))\<lparr>lines := lines (mk_new_log log (s + 1)) @ [line]\<rparr>"
    have l: "lines ?cur = [line]" by (simp add: mk_new_log_def)
    have "fits ?cur" unfolding fits_def l by (cases "length (snd line) \<le> max_size") auto
    moreover have "0 + length (snd line) = log_size (lines ?cur)" unfolding l by simp
    moreover have "list_all fits (closed @ [cur])" using Cons.prems by simp
    ultimately have "list_all fits (snd (split_lines log rest (s + 1) ?cur (0 + length (snd line)) (closed @ [cur])))"
      by (intro Cons.IH)
    with True show ?thesis by simp
  next
    case False
    let ?cur = "cur\<lparr>lines := lines cur @ [line]\<rparr>"
    have "fits ?cur" using False Cons.prems(1) by (simp add: fits_def)
    moreover have "sz + length (snd line) = log_size (lines ?cur)" using Cons.prems(1) by simp
    ultimately have "list_all fits (snd (split_lines log rest s ?cur (sz + length (snd line)) closed))"
      using Cons.prems(3) by (intro Cons.IH)
    with False show ?thesis by simp
  qed
qed

section \<open>Facts about the store operations\<close>

lemma fold_max_ge: "a \<le> fold max xs (a::nat)"
proof (induction xs arbitrary: a)
  case Nil show ?case by simp
next
  case (Cons x xs)
  have "max x a \<le> fold max xs (max x a)" by (rule Cons.IH)
  then show ?case by simp
qed

lemma fold_max_mem: "x \<in> set xs \<Longrightarrow> x \<le> fold max xs (a::nat)"
proof (induction xs arbitrary: a)
  case Nil then show ?case by simp
next
  case (Cons y ys)
  show ?case
  proof (cases "x = y")
    case True
    have "max y a \<le> fold max ys (max y a)" by (rule fold_max_ge)
    with True show ?thesis by simp
  next
    case False
    with Cons.prems have "x \<in> set ys" by simp
    from Cons.IH [OF this] show ?thesis by simp
  qed
qed

lemma new_oid_fresh: "e \<in> set coll \<Longrightarrow> fst e < new_oid coll"
proof -
  assume e: "e \<in> set coll"
  then have "fst e \<in> set (map fst coll)" by simp
  then have "fst e \<le> fold max (map fst coll) 0" by (rule fold_max_mem)
  moreover from e have "coll \<noteq> []" by auto
  ultimately show ?thesis by (simp add: new_oid_def)
qed

lemma fold_max_snoc: "fold max (xs @ [y]) (a::nat) = max y (fold max xs a)"
  by simp

lemma new_oid_insert_one: "new_oid (insert_one coll d) = Suc (new_oid coll)"
proof (cases "coll = []")
  case True
  then show ?thesis by (simp add: new_oid_def insert_one_def)
next
  case False
  have "fold max (map fst coll) 0 < Suc (fold max (map fst coll) 0)" by simp
  then show ?thesis using False by (simp add: new_oid_def insert_one_def max_def)
qed

lemma insert_many_zip:
  "insert_many coll ds = coll @ zip [new_oid coll ..< new_oid coll + length ds] ds"
proof (induction ds arbitrary: coll)
  case Nil
  show ?case by (simp add: insert_many_def)
next
  case (Cons d ds)
  have "insert_many coll (d # ds) = insert_many (insert_one coll d) ds"
    by (simp add: insert_many_def)
  also have "\<dots> = insert_one coll d @
      zip [Suc (new_oid coll) ..< Suc (new_oid coll) + length ds] ds"
    by (simp add: Cons.IH new_oid_insert_one)
  also have "\<dots> = coll @ (new_oid coll, d) #
      zip [Suc (new_oid coll) ..< Suc (new_oid coll) + length ds] ds"
    by (simp add: insert_one_def)
  finally have step: "insert_many coll (d # ds) = coll @ (new_oid coll, d) #
      zip [Suc (new_oid coll) ..< Suc (new_oid coll) + length ds] ds" .
  have "new_oid coll < new_oid coll + length (d # ds)" by simp
  then have "[new_oid coll ..< new_oid coll + length (d # ds)] =
      new_oid coll # [Suc (new_oid coll) ..< new_oid coll + length (d # ds)]"
    by (rule upt_conv_Cons)
  moreover have "new_oid coll + length (d # ds) = Suc (new_oid coll) + length ds" by simp
  ultimately have "zip [new_oid coll ..< new_oid coll + length (d # ds)] (d # ds) =
      (new_oid coll, d) # zip [Suc (new_oid coll) ..< Suc (new_oid coll) + length ds] ds"
    by (simp only: zip_Cons_Cons)
  with step show ?case by (simp only:)
qed

lemma map_fst_update_many [simp]: "map fst (update_many p f coll) = map fst coll"
  by (simp add: update_many_def comp_def if_distrib [of fst] cong: if_cong)

lemma new_oid_cong: "map fst c1 = map fst c2 \<Longrightarrow> new_oid c1 = new_oid c2"
  by (cases c1; cases c2) (simp_all add: new_oid_def)

lemma new_oid_update_many [simp]: "new_oid (update_many p f coll) = new_oid coll"
  by (rule new_oid_cong) simp

lemma delete_one_append:
  "\<exists>e \<in> set xs. p e \<Longrightarrow> delete_one p (xs @ ys) = delete_one p xs @ ys"
  by (induction xs) auto

lemma delete_one_distinct:
  "distinct (map fst coll) \<Longrightarrow> delete_one (has_id i) coll = filter (\<lambda>e. fst e \<noteq> i) coll"
proof (induction coll)
  case Nil show ?case by simp
next
  case (Cons e coll)
  show ?case
  proof (cases "fst e = i")
    case True
    with Cons.prems have "\<forall>x \<in> set coll. fst x \<noteq> i" by (auto simp add: image_iff)
    then have "filter (\<lambda>e. fst e \<noteq> i) coll = coll" by (simp add: filter_id_conv)
    with True show ?thesis by (simp add: has_id_def)
  next
    case False
    with Cons show ?thesis by (simp add: has_id_def)
  qed
qed

lemma map_of_update_one:
  "map_of (update_one (has_id t) f coll) =
     (case map_of coll t of None \<Rightarrow> map_of coll | Some d \<Rightarrow> (map_of coll)(t \<mapsto> f d))"
proof (induction coll)
  case Nil show ?case by simp
next
  case (Cons e coll)
  obtain j d where e: "e = (j, d)" by (cases e)
  show ?case
  proof (cases "j = t")
    case True
    with e show ?thesis by (auto simp add: has_id_def)
  next
    case False
    with e Cons.IH show ?thesis
      by (auto simp add: has_id_def fun_upd_twist split: option.splits)
  qed
qed

lemma map_fst_update_one [simp]: "map fst (update_one p f coll) = map fst coll"
  by (induction coll) auto

lemma find_one_Some:
  "find_one (has_id i) coll = Some e \<Longrightarrow> e \<in> set coll \<and> fst e = i"
  by (auto simp add: find_one_def has_id_def find_Some_iff)

lemma find_one_None:
  "find_one (has_id i) coll = None \<Longrightarrow> i \<notin> fst ` set coll"
  by (auto simp add: find_one_def has_id_def find_None_iff)

section \<open>Facts about one splitting step\<close>

lemma split_lines_shape:
  "\<exists>ys. snd (split_lines log ls s cur sz closed) = closed @ ys \<and> ys \<noteq> [] \<and>
        (\<forall>c \<in> set (tl ys). lines c \<noteq> []) \<and> (lines cur \<noteq> [] \<longrightarrow> lines (hd ys) \<noteq> [])"
proof (induction ls arbitrary: s cur sz closed)
  case Nil
  show ?case by simp
next
  case (Cons line rest)
  show ?case
  proof (cases "sz + length (snd line) > max_size")
    case True
    let ?cur = "(mk_new_log log (s + 1))\<lparr>lines := lines (mk_new_log log (s + 1)) @ [line]\<rparr>"
    from Cons.IH [of "s + 1" ?cur "0 + length (snd line)" "closed @ [cur]"]
    obtain ys where ys: "snd (split_lines log rest (s + 1) ?cur (0 + length (snd line)) (closed @ [cur]))
        = (closed @ [cur]) @ ys" "ys \<noteq> []" "\<forall>c \<in> set (tl ys). lines c \<noteq> []"
        "lines ?cur \<noteq> [] \<longrightarrow> lines (hd ys) \<noteq> []"
      by blast
    have "lines ?cur \<noteq> []" by simp
    with ys(4) have "lines (hd ys) \<noteq> []" by simp
    with ys(2,3) have all: "\<forall>c \<in> set ys. lines c \<noteq> []" by (cases ys) auto
    have "snd (split_lines log (line # rest) s cur sz closed) = closed @ (cur # ys)"
      using True ys(1) by simp
    moreover have "\<forall>c \<in> set (tl (cur # ys)). lines c \<noteq> []" using all by simp
    ultimately show ?thesis by (intro exI [of _ "cur # ys"]) simp
  next
    case False
    let ?cur = "cur\<lparr>lines := lines cur @ [line]\<rparr>"
    from Cons.IH [of s ?cur "sz + length (snd line)" closed]
    obtain ys where ys: "snd (split_lines log rest s ?cur (sz + length (snd line)) closed)
        = closed @ ys" "ys \<noteq> []" "\<forall>c \<in> set (tl ys). lines c \<noteq> []"
        "lines ?cur \<noteq> [] \<longrightarrow> lines (hd ys) \<noteq> []"
      by blast
    have "lines ?cur \<noteq> []" by simp
    with ys(4) have "lines (hd ys) \<noteq> []" by simp
    moreover have "snd (split_lines log (line # rest) s cur sz closed) = closed @ ys"
      using False ys(1) by simp
    ultimately show ?thesis using ys(2,3) by (intro exI [of _ ys]) simp
  qed
qed

lemma split_log_nonempty: "snd (split_log log) \<noteq> []"
  using split_lines_shape [of log "lines log" "seq log" "mk_new_log log (seq log)" 0 "[]"]
  by (auto simp add: split_log_def)

lemma split_log_tl_nonempty_lines: "\<forall>c \<in> set (tl (snd (split_log log))). lines c \<noteq> []"
  using split_lines_shape [of log "lines log" "seq log" "mk_new_log log (seq log)" 0 "[]"]
  by (auto simp add: split_log_def)

lemma split_log_first_oversized:
  assumes "lines log = line # rest" "max_size < length (snd line)"
  shows "hd (snd (split_log log)) = mk_new_log log (seq log)"
proof -
  let ?cur = "(mk_new_log log (seq log + 1))\<lparr>lines := lines (mk_new_log log (seq log + 1)) @ [line]\<rparr>"
  from split_lines_shape [of log rest "seq log + 1" ?cur "0 + length (snd line)"
      "[] @ [mk_new_log log (seq log)]"]
  obtain ys where "snd (split_lines log rest (seq log + 1) ?cur (0 + length (snd line))
      ([] @ [mk_new_log log (seq log)])) = ([] @ [mk_new_log log (seq log)]) @ ys"
    by blast
  with assms show ?thesis by (simp add: split_log_def)
qed

lemma split_log_concat: "concat (map lines (snd (split_log log))) = lines log"
  by (simp add: split_log_def split_lines_concat mk_new_log_def)

lemma split_log_seqs:
  "map seq (snd (split_log log)) = [seq log .. fst (split_log log)]"
  using split_lines_seqs [of "mk_new_log log (seq log)" "seq log" log "lines log" 0 "[]"]
  by (simp add: split_log_def mk_new_log_def)

lemma split_log_fst_ge: "seq log \<le> fst (split_log log)"
  by (simp add: split_log_def split_lines_fst_ge)

lemma split_log_length:
  "int (length (snd (split_log log))) = fst (split_log log) - seq log + 1"
proof -
  have "length (snd (split_log log)) = length (map seq (snd (split_log log)))" by simp
  also have "\<dots> = length [seq log .. fst (split_log log)]" by (simp only: split_log_seqs)
  also have "\<dots> = nat (fst (split_log log) - seq log + 1)" by simp
  finally show ?thesis using split_log_fst_ge [of log] by simp
qed

lemma split_log_fits: "list_all fits (snd (split_log log))"
  unfolding split_log_def
  by (rule split_lines_fits) (simp_all add: mk_new_log_def fits_def)

lemma process_log_compliant:
  "log_size (lines (snd entry)) \<le> max_size \<Longrightarrow> process_log st entry = st"
  by (simp add: process_log_def Let_def)

lemma has_id_ex: "i \<in> set (map fst coll) \<Longrightarrow> \<exists>e \<in> set coll. has_id i e"
  by (auto simp add: has_id_def)

lemma process_log_logs:
  assumes "entry \<in> set (logs st)" "max_size < log_size (lines (snd entry))"
  shows "logs (process_log st entry) =
     delete_one (has_id (fst entry))
       (update_many (later_log (snd entry))
          (\<lambda>d. d\<lparr>seq := seq d + (fst (split_log (snd entry)) - seq (snd entry))\<rparr>) (logs st))
     @ zip [new_oid (logs st) ..< new_oid (logs st) + length (snd (split_log (snd entry)))]
         (snd (split_log (snd entry)))"
proof -
  let ?upd = "update_many (later_log (snd entry))
          (\<lambda>d. d\<lparr>seq := seq d + (fst (split_log (snd entry)) - seq (snd entry))\<rparr>) (logs st)"
  have "fst entry \<in> set (map fst ?upd)" using assms(1) by simp
  then have ex: "\<exists>e \<in> set ?upd. has_id (fst entry) e"
    by (rule has_id_ex)
  have "logs (process_log st entry) =
      delete_one (has_id (fst entry)) (insert_many ?upd (snd (split_log (snd entry))))"
    using assms(2)
    by (simp add: process_log_def Let_def split_beta split: option.splits)
  also have "\<dots> = delete_one (has_id (fst entry)) (?upd @
      zip [new_oid (logs st) ..< new_oid (logs st) + length (snd (split_log (snd entry)))]
         (snd (split_log (snd entry))))"
    by (simp add: insert_many_zip)
  also have "\<dots> = delete_one (has_id (fst entry)) ?upd @
      zip [new_oid (logs st) ..< new_oid (logs st) + length (snd (split_log (snd entry)))]
         (snd (split_log (snd entry)))"
    using ex by (rule delete_one_append)
  finally show ?thesis .
qed

lemma zip_upt_first: "(n, y) \<in> set (zip [n ..< n + length (y # ys)] (y # ys))"
proof -
  have "n < n + length (y # ys)" by simp
  then have "[n ..< n + length (y # ys)] = n # [Suc n ..< n + length (y # ys)]"
    by (rule upt_conv_Cons)
  then show ?thesis by (simp only: zip_Cons_Cons list.set insertI1)
qed

section \<open>The fixture of the self-test, evaluated\<close>

lemma test_setup_value:
  "test_setup utcnow = Some
     \<lparr>fx_global_build = 0, fx_build = 1, fx_test = 0,
      fx_db = \<lparr>builds = [(0, \<lparr>build_name = ''global_build'', build_seq = 3\<rparr>),
                         (1, \<lparr>build_name = ''build'', build_seq = 0\<rparr>)],
               tests = [(0, \<lparr>test_name = ''test'', test_build_id = 1, test_seq = 3\<rparr>)],
               logs = zip [0 ..< 6] (three_logs utcnow 0 0 None @ three_logs utcnow 4 1 (Some 0))\<rparr>\<rparr>"
  by (simp add: test_setup_def insert_one_def new_oid_def find_one_def has_name_def
      test_has_name_def three_logs_def Let_def upt_rec)

lemma migrate_fixture:
  "break_up_large_documents
     \<lparr>builds = [(0, \<lparr>build_name = ''global_build'', build_seq = 3\<rparr>),
                (1, \<lparr>build_name = ''build'', build_seq = 0\<rparr>)],
      tests = [(0, \<lparr>test_name = ''test'', test_build_id = 1, test_seq = 3\<rparr>)],
      logs = zip [0 ..< 6] (three_logs utcnow 0 0 None @ three_logs utcnow 4 1 (Some 0))\<rparr> =
   \<lparr>builds = [(0, \<lparr>build_name = ''global_build'', build_seq = 4\<rparr>),
              (1, \<lparr>build_name = ''build'', build_seq = 0\<rparr>)],
    tests = [(0, \<lparr>test_name = ''test'', test_build_id = 1, test_seq = 4\<rparr>)],
    logs = [(0, migrated_logs utcnow 0 0 None ! 0), (2, migrated_logs utcnow 0 0 None ! 3),
            (3, migrated_logs utcnow 4 1 (Some 0) ! 0), (5, migrated_logs utcnow 4 1 (Some 0) ! 3),
            (6, migrated_logs utcnow 0 0 None ! 1), (7, migrated_logs utcnow 0 0 None ! 2),
            (8, migrated_logs utcnow 4 1 (Some 0) ! 1), (9, migrated_logs utcnow 4 1 (Some 0) ! 2)]\<rparr>"
  by (simp add: break_up_large_documents_def scan_ids_def visit_def find_one_def has_id_def
      process_log_def split_log_def mk_new_log_def later_log_def update_many_def
      insert_many_def insert_one_def new_oid_def three_logs_def dates_def line_size_def
      max_size_def Let_def upt_rec migrated_logs_def single_line_log_def)

lemma payload_first: "replicate line_size c = c # replicate (line_size - 1) c"
proof -
  have "line_size = Suc (line_size - 1)" by (simp add: line_size_def)
  then have "replicate line_size c = replicate (Suc (line_size - 1)) c" by (simp only:)
  then show ?thesis by (simp only: replicate_Suc)
qed

lemma test_checks_fixture:
  "test_checks \<lparr>fx_global_build = 0, fx_build = 1, fx_test = 0, fx_db = any\<rparr>
   \<lparr>builds = [(0, \<lparr>build_name = ''global_build'', build_seq = 4\<rparr>),
              (1, \<lparr>build_name = ''build'', build_seq = 0\<rparr>)],
    tests = [(0, \<lparr>test_name = ''test'', test_build_id = 1, test_seq = 4\<rparr>)],
    logs = [(0, migrated_logs utcnow 0 0 None ! 0), (2, migrated_logs utcnow 0 0 None ! 3),
            (3, migrated_logs utcnow 4 1 (Some 0) ! 0), (5, migrated_logs utcnow 4 1 (Some 0) ! 3),
            (6, migrated_logs utcnow 0 0 None ! 1), (7, migrated_logs utcnow 0 0 None ! 2),
            (8, migrated_logs utcnow 4 1 (Some 0) ! 1), (9, migrated_logs utcnow 4 1 (Some 0) ! 2)]\<rparr>
   = All_tests_passed"
  by (simp add: test_checks_def find_one_def has_id_def scope_logs_def in_scope_def
      migrated_logs_def single_line_log_def dates_def py_index_def str_def str_nat.simps
      payload_first)

section \<open>Facts about one iteration of the scan\<close>

lemma has_id_eq: "has_id i = (\<lambda>e. fst e = i)"
  by (rule ext) (simp add: has_id_def)

lemma find_one_distinct:
  "distinct (map fst coll) \<Longrightarrow> (j, d) \<in> set coll \<Longrightarrow> find_one (has_id j) coll = Some (j, d)"
proof (induction coll)
  case Nil then show ?case by simp
next
  case (Cons e coll)
  show ?case
  proof (cases "fst e = j")
    case True
    with Cons.prems have "e = (j, d)" by (cases e) (auto simp add: image_iff)
    then show ?thesis by (simp add: find_one_def has_id_eq)
  next
    case False
    with Cons.prems have "(j, d) \<in> set coll" by auto
    moreover from Cons.prems have "distinct (map fst coll)" by simp
    ultimately have "find_one (has_id j) coll = Some (j, d)" by (rule Cons.IH [rotated])
    with False show ?thesis by (simp add: find_one_def has_id_eq)
  qed
qed

lemma find_one_update_one_other:
  "t' \<noteq> t \<Longrightarrow> find_one (has_id t') (update_one (has_id t) g coll) = find_one (has_id t') coll"
  by (induction coll) (auto simp add: find_one_def has_id_eq)

lemma find_one_update_one_same:
  "find_one (has_id t) (update_one (has_id t) g coll) =
     map_option (\<lambda>e. (fst e, g (snd e))) (find_one (has_id t) coll)"
  by (induction coll) (auto simp add: find_one_def has_id_eq)

lemma counter_of_update_one:
  assumes "\<And>d. f (g d) = f d + inc"
  shows "counter_of f (update_one (has_id t) g coll) t' =
     (if t' = t then map_option (\<lambda>n. n + inc) (counter_of f coll t) else counter_of f coll t')"
proof (cases "t' = t")
  case True
  then show ?thesis
    by (cases "find_one (has_id t) coll")
       (simp_all add: counter_of_def find_one_update_one_same assms)
next
  case False
  then show ?thesis by (simp add: counter_of_def find_one_update_one_other)
qed

lemma process_log_logs_filter:
  assumes "entry \<in> set (logs st)" "distinct (map fst (logs st))"
    "max_size < log_size (lines (snd entry))"
  shows "logs (process_log st entry) =
     filter (\<lambda>e. fst e \<noteq> fst entry)
       (update_many (later_log (snd entry))
          (\<lambda>d. d\<lparr>seq := seq d + (fst (split_log (snd entry)) - seq (snd entry))\<rparr>) (logs st))
     @ zip [new_oid (logs st) ..< new_oid (logs st) + length (snd (split_log (snd entry)))]
         (snd (split_log (snd entry)))"
proof -
  let ?upd = "update_many (later_log (snd entry))
          (\<lambda>d. d\<lparr>seq := seq d + (fst (split_log (snd entry)) - seq (snd entry))\<rparr>) (logs st)"
  have "distinct (map fst ?upd)" using assms(2) by simp
  then have "delete_one (has_id (fst entry)) ?upd = filter (\<lambda>e. fst e \<noteq> fst entry) ?upd"
    by (rule delete_one_distinct)
  with process_log_logs [OF assms(1,3)] show ?thesis by simp
qed

lemma map_fst_zip_upt: "map fst (zip [n ..< n + length ys] ys) = [n ..< n + length ys]"
  by (simp add: map_fst_zip)

lemma process_log_ids:
  assumes "entry \<in> set (logs st)" "distinct (map fst (logs st))"
    "max_size < log_size (lines (snd entry))"
  shows "map fst (logs (process_log st entry)) =
     filter (\<lambda>j. j \<noteq> fst entry) (map fst (logs st)) @
     [new_oid (logs st) ..< new_oid (logs st) + length (snd (split_log (snd entry)))]"
proof -
  have "map fst (filter (\<lambda>e. fst e \<noteq> fst entry) coll) =
      filter (\<lambda>j. j \<noteq> fst entry) (map fst coll)" for coll :: "log_doc collection"
    by (induction coll) auto
  then show ?thesis
    by (simp add: process_log_logs_filter [OF assms] map_fst_zip)
qed

lemma process_log_distinct:
  assumes "entry \<in> set (logs st)" "distinct (map fst (logs st))"
  shows "distinct (map fst (logs (process_log st entry)))"
proof (cases "max_size < log_size (lines (snd entry))")
  case False
  then show ?thesis using assms(2) by (simp add: process_log_compliant)
next
  case True
  have "j < new_oid (logs st)" if "j \<in> set (map fst (logs st))" for j
    using that new_oid_fresh [of _ "logs st"] by auto
  then have "set (filter (\<lambda>j. j \<noteq> fst entry) (map fst (logs st))) \<inter>
      set [new_oid (logs st) ..< new_oid (logs st) + length (snd (split_log (snd entry)))] = {}"
    by fastforce
  then show ?thesis
    using assms(2) by (simp add: process_log_ids [OF assms True])
qed

lemma process_log_owner:
  assumes "max_size < log_size (lines (snd entry))"
  shows "case test_id (snd entry) of
      Some t \<Rightarrow> builds (process_log st entry) = builds st \<and>
        tests (process_log st entry) = update_one (has_id t)
          (\<lambda>d. d\<lparr>test_seq := test_seq d + (fst (split_log (snd entry)) - seq (snd entry))\<rparr>)
          (tests st)
    | None \<Rightarrow> tests (process_log st entry) = tests st \<and>
        builds (process_log st entry) = update_one (has_id (build_id (snd entry)))
          (\<lambda>d. d\<lparr>build_seq := build_seq d + (fst (split_log (snd entry)) - seq (snd entry))\<rparr>)
          (builds st)"
  using assms by (simp add: process_log_def Let_def split_beta split: option.splits)

lemma process_log_sibling:
  assumes "(i, log) \<in> set (logs st)" "distinct (map fst (logs st))"
    "max_size < log_size (lines log)" "e \<in> set (logs st)" "fst e \<noteq> i"
  shows "find_one (has_id (fst e)) (logs (process_log st (i, log))) =
     Some (fst e, if in_scope (build_id log) (test_id log) e \<and> seq log < seq (snd e)
                  then (snd e)\<lparr>seq := seq (snd e) + (fst (split_log log) - seq log)\<rparr>
                  else snd e)"
proof -
  let ?f = "\<lambda>d. d\<lparr>seq := seq d + (fst (split_log log) - seq log)\<rparr>"
  let ?e' = "(fst e, if in_scope (build_id log) (test_id log) e \<and> seq log < seq (snd e)
                  then ?f (snd e) else snd e)"
  have big: "max_size < log_size (lines (snd (i, log)))" using assms(3) by simp
  define F where "F = (\<lambda>e. if later_log log e then (fst e, ?f (snd e)) else e)"
  have "F e \<in> F ` set (logs st)" using assms(4) by (rule imageI)
  then have "(if later_log log e then (fst e, ?f (snd e)) else e) \<in>
      set (update_many (later_log log) ?f (logs st))"
    by (simp add: update_many_def F_def)
  moreover have "(if later_log log e then (fst e, ?f (snd e)) else e) = ?e'"
    by (cases e) (simp add: later_log_def in_scope_def)
  ultimately have "?e' \<in> set (filter (\<lambda>x. fst x \<noteq> i) (update_many (later_log log) ?f (logs st)))"
    using assms(5) by simp
  then have "?e' \<in> set (logs (process_log st (i, log)))"
    using process_log_logs_filter [OF assms(1,2) big] by simp
  moreover have "distinct (map fst (logs (process_log st (i, log))))"
    using assms(1,2) by (rule process_log_distinct)
  ultimately show ?thesis by (rule find_one_distinct [rotated])
qed

lemma scenario_logs:
  "logs scenario_store =
     [(0, three_logs sample_now 0 0 None ! 0), (1, three_logs sample_now 0 0 None ! 1),
      (2, three_logs sample_now 0 0 None ! 2), (3, three_logs sample_now 4 1 (Some 0) ! 0),
      (4, three_logs sample_now 4 1 (Some 0) ! 1), (5, three_logs sample_now 4 1 (Some 0) ! 2)]"
  by (simp add: scenario_store_def three_logs_def upt_rec)

lemma two_line_oversized:
  "max_size < log_size (lines (three_logs utcnow k b t ! 1))"
  by (simp add: three_logs_def line_size_def max_size_def)

lemma two_line_split:
  "split_log (three_logs utcnow k b t ! 1) =
     (3, [single_line_log b t 2 (Datetime 2015 2 1 0 0 0 0) (utcnow (k + 1)) CHR ''2'',
          single_line_log b t 3 (Datetime 2015 2 1 0 0 0 0) (utcnow (k + 2)) CHR ''3''])"
  by (simp add: three_logs_def line_size_def max_size_def split_log_def mk_new_log_def
      single_line_log_def dates_def)

section \<open>Facts about the sequence invariant\<close>

lemma contiguous_length: "contiguous ss n \<Longrightarrow> int (length ss) = n"
proof -
  assume c: "contiguous ss n"
  then have d: "distinct ss" and s: "set ss = {1..n}" and n: "0 \<le> n"
    by (simp_all add: contiguous_def)
  have "length ss = card (set ss)" using d by (simp add: distinct_card)
  also have "\<dots> = card {1..n}" by (simp only: s)
  also have "\<dots> = nat n" by simp
  finally show ?thesis using n by simp
qed

lemma contiguous_renumber:
  assumes "distinct rest" "set rest = {1..n} - {s}" "s \<in> {1..n}" "0 \<le> inc"
  shows "contiguous (map (renumber s inc) rest @ [s .. s + inc]) (n + inc)"
proof -
  have inj: "inj_on (renumber s inc) (set rest)"
    using assms(4) by (auto simp add: inj_on_def renumber_def split: if_splits)
  have d1: "distinct (map (renumber s inc) rest)"
    using assms(1) inj by (simp add: distinct_map)
  have disj: "renumber s inc x \<notin> {s .. s + inc}" if "x \<in> set rest" for x
  proof -
    from that assms(2) have "x \<noteq> s" by auto
    then show ?thesis using assms(4) by (auto simp add: renumber_def)
  qed
  have d: "distinct (map (renumber s inc) rest @ [s .. s + inc])"
    using d1 disj by auto
  have "renumber s inc ` ({1..n} - {s}) \<union> {s .. s + inc} = {1 .. n + inc}"
  proof (intro equalityI subsetI)
    fix y assume "y \<in> renumber s inc ` ({1..n} - {s}) \<union> {s .. s + inc}"
    then show "y \<in> {1 .. n + inc}"
      using assms(3,4) by (auto simp add: renumber_def split: if_splits)
  next
    fix y assume y: "y \<in> {1 .. n + inc}"
    show "y \<in> renumber s inc ` ({1..n} - {s}) \<union> {s .. s + inc}"
    proof (cases "y < s")
      case True
      with y assms(3) have "y \<in> {1..n} - {s}" "renumber s inc y = y"
        by (auto simp add: renumber_def)
      then show ?thesis by (metis UnI1 imageI)
    next
      case False
      show ?thesis
      proof (cases "y \<le> s + inc")
        case True
        with False show ?thesis by simp
      next
        case gt: False
        with y have "y - inc \<in> {1..n} - {s}" "renumber s inc (y - inc) = y"
          using assms(3,4) by (auto simp add: renumber_def)
        then show ?thesis by (metis UnI1 imageI)
      qed
    qed
  qed
  then have "set (map (renumber s inc) rest @ [s .. s + inc]) = {1 .. n + inc}"
    using assms(2) by simp
  moreover have "0 \<le> n + inc" using assms(3,4) by simp
  ultimately show ?thesis using d by (simp add: contiguous_def)
qed

lemma split_lines_scope:
  assumes "build_id cur = build_id log" "test_id cur = test_id log" "started cur = started log"
    "\<forall>c \<in> set closed. build_id c = build_id log \<and> test_id c = test_id log \<and>
       started c = started log"
  shows "\<forall>c \<in> set (snd (split_lines log ls s cur sz closed)).
     build_id c = build_id log \<and> test_id c = test_id log \<and> started c = started log"
  using assms
proof (induction ls arbitrary: s cur sz closed)
  case Nil
  then show ?case by simp
next
  case (Cons line rest)
  show ?case
  proof (cases "sz + length (snd line) > max_size")
    case True
    let ?cur = "(mk_new_log log (s + 1))\<lparr>lines := lines (mk_new_log log (s + 1)) @ [line]\<rparr>"
    have "\<forall>c \<in> set (snd (split_lines log rest (s + 1) ?cur (0 + length (snd line))
        (closed @ [cur]))). build_id c = build_id log \<and> test_id c = test_id log \<and>
        started c = started log"
      using Cons.prems by (intro Cons.IH) (simp_all add: mk_new_log_def)
    with True show ?thesis by simp
  next
    case False
    let ?cur = "cur\<lparr>lines := lines cur @ [line]\<rparr>"
    have "\<forall>c \<in> set (snd (split_lines log rest s ?cur (sz + length (snd line)) closed)).
        build_id c = build_id log \<and> test_id c = test_id log \<and> started c = started log"
      using Cons.prems by (intro Cons.IH) simp_all
    with False show ?thesis by simp
  qed
qed

lemma split_log_scope:
  assumes "c \<in> set (snd (split_log log))"
  shows "build_id c = build_id log \<and> test_id c = test_id log \<and> started c = started log"
proof -
  have all: "\<forall>c \<in> set (snd (split_lines log (lines log) (seq log)
      (mk_new_log log (seq log)) 0 [])).
      build_id c = build_id log \<and> test_id c = test_id log \<and> started c = started log"
    by (rule split_lines_scope) (simp_all add: mk_new_log_def)
  from assms have "c \<in> set (snd (split_lines log (lines log) (seq log)
      (mk_new_log log (seq log)) 0 []))"
    by (simp only: split_log_def)
  with all show ?thesis by (rule bspec)
qed

lemma filter_filter_map_same:
  assumes "\<forall>e \<in> set xs. P (F e) = P e" "\<forall>e \<in> set xs. P e \<longrightarrow> F e = e \<and> Q e"
  shows "filter P (filter Q (map F xs)) = filter P xs"
  using assms by (induction xs) auto

lemma filter_filter_map_commute:
  assumes "\<forall>e \<in> set xs. P (F e) = P e" "\<forall>e \<in> set xs. Q (F e) = Q e"
  shows "filter P (filter Q (map F xs)) = map F (filter P (filter Q xs))"
  using assms by (induction xs) auto

lemma mset_filter_remove:
  assumes "distinct (map fst xs)" "(i, d) \<in> set xs" "P (i, d)"
  shows "mset (filter P xs) =
     add_mset (i, d) (mset (filter P (filter (\<lambda>e. fst e \<noteq> i) xs)))"
  using assms
proof (induction xs)
  case Nil
  then show ?case by simp
next
  case (Cons e xs)
  show ?case
  proof (cases "e = (i, d)")
    case True
    with Cons.prems(1) have "\<forall>x \<in> set xs. fst x \<noteq> i" by (auto simp add: image_iff)
    then have "filter (\<lambda>e. fst e \<noteq> i) xs = xs" by (simp add: filter_id_conv)
    with True Cons.prems(3) show ?thesis by simp
  next
    case False
    with Cons.prems have mem: "(i, d) \<in> set xs" by auto
    with Cons.prems(1) have "fst e \<noteq> i" by (cases e) (auto simp add: image_iff)
    moreover have "mset (filter P xs) =
        add_mset (i, d) (mset (filter P (filter (\<lambda>e. fst e \<noteq> i) xs)))"
      using Cons.prems(1,3) mem by (intro Cons.IH) simp_all
    ultimately show ?thesis by simp
  qed
qed

lemma entry_unique:
  "distinct (map fst xs) \<Longrightarrow> (i, d) \<in> set xs \<Longrightarrow> e \<in> set xs \<Longrightarrow> fst e = i \<Longrightarrow> e = (i, d)"
  by (cases e) (auto simp add: eq_key_imp_eq_value)

lemma process_log_logs_map:
  assumes "(i, log) \<in> set (logs st)" "distinct (map fst (logs st))"
    "max_size < log_size (lines log)"
  shows "logs (process_log st (i, log)) =
     filter (\<lambda>e. fst e \<noteq> i)
       (map (\<lambda>e. if later_log log e
                 then (fst e, (snd e)\<lparr>seq := seq (snd e) + (fst (split_log log) - seq log)\<rparr>)
                 else e) (logs st))
     @ zip [new_oid (logs st) ..< new_oid (logs st) + length (snd (split_log log))]
         (snd (split_log log))"
proof -
  have big: "max_size < log_size (lines (snd (i, log)))" using assms(3) by simp
  show ?thesis
    using process_log_logs_filter [OF assms(1,2) big] by (simp add: update_many_def)
qed

lemma new_logs_in_scope:
  assumes "x \<in> set (zip ids (snd (split_log log)))"
  shows "in_scope b t x = ((b, t) = (build_id log, test_id log))"
proof -
  obtain a c where x: "x = (a, c)" by (cases x)
  with assms have "(a, c) \<in> set (zip ids (snd (split_log log)))" by simp
  then have "c \<in> set (snd (split_log log))" by (rule set_zip_rightD)
  with x have "snd x \<in> set (snd (split_log log))" by simp
  then have "build_id (snd x) = build_id log \<and> test_id (snd x) = test_id log \<and>
      started (snd x) = started log"
    by (rule split_log_scope)
  then show ?thesis by (auto simp add: in_scope_def)
qed

lemma process_log_other_scope:
  assumes "(i, log) \<in> set (logs st)" "distinct (map fst (logs st))"
    "max_size < log_size (lines log)" "(b, t) \<noteq> (build_id log, test_id log)"
  shows "filter (in_scope b t) (logs (process_log st (i, log))) =
     filter (in_scope b t) (logs st)"
proof -
  let ?F = "\<lambda>e. if later_log log e
                 then (fst e, (snd e)\<lparr>seq := seq (snd e) + (fst (split_log log) - seq log)\<rparr>)
                 else e"
  let ?nl = "snd (split_log log)"
  let ?n = "new_oid (logs st)"
  have new: "filter (in_scope b t) (zip [?n ..< ?n + length ?nl] ?nl) = []"
    using assms(4) by (simp add: filter_empty_conv new_logs_in_scope)
  have pres: "\<forall>e \<in> set (logs st). in_scope b t (?F e) = in_scope b t e"
    by (simp add: in_scope_def)
  have same: "\<forall>e \<in> set (logs st). in_scope b t e \<longrightarrow> ?F e = e \<and> fst e \<noteq> i"
  proof (intro ballI impI)
    fix e assume e: "e \<in> set (logs st)" and sc: "in_scope b t e"
    from sc assms(4) have nl: "\<not> later_log log e"
      by (auto simp add: in_scope_def later_log_def)
    have "fst e \<noteq> i"
    proof
      assume "fst e = i"
      with assms(2,1) e have "e = (i, log)" by (rule entry_unique)
      with sc assms(4) show False by (simp add: in_scope_def)
    qed
    with nl show "?F e = e \<and> fst e \<noteq> i" by simp
  qed
  have "filter (in_scope b t) (filter (\<lambda>e. fst e \<noteq> i) (map ?F (logs st))) =
      filter (in_scope b t) (logs st)"
    using pres same by (rule filter_filter_map_same)
  then show ?thesis by (simp add: process_log_logs_map [OF assms(1-3)] new)
qed

lemma process_log_own_scope:
  assumes "(i, log) \<in> set (logs st)" "distinct (map fst (logs st))"
    "max_size < log_size (lines log)"
  shows "scope_seqs (process_log st (i, log)) (build_id log) (test_id log) =
     map (renumber (seq log) (fst (split_log log) - seq log))
       (map (\<lambda>e. seq (snd e))
          (filter (in_scope (build_id log) (test_id log))
             (filter (\<lambda>e. fst e \<noteq> i) (logs st))))
     @ [seq log .. fst (split_log log)]"
proof -
  let ?F = "\<lambda>e. if later_log log e
                 then (fst e, (snd e)\<lparr>seq := seq (snd e) + (fst (split_log log) - seq log)\<rparr>)
                 else e"
  let ?P = "in_scope (build_id log) (test_id log)"
  let ?Q = "\<lambda>e. fst e \<noteq> i"
  let ?nl = "snd (split_log log)"
  let ?n = "new_oid (logs st)"
  let ?ys = "filter ?P (filter ?Q (logs st))"
  have new: "filter ?P (zip [?n ..< ?n + length ?nl] ?nl) = zip [?n ..< ?n + length ?nl] ?nl"
    by (simp add: filter_id_conv new_logs_in_scope)
  have len: "length [?n ..< ?n + length ?nl] = length ?nl" by simp
  have "map (\<lambda>e. seq (snd e)) (zip [?n ..< ?n + length ?nl] ?nl) =
      map seq (map snd (zip [?n ..< ?n + length ?nl] ?nl))"
    by (simp only: map_map comp_def)
  also have "\<dots> = map seq ?nl" by (simp only: map_snd_zip [OF len])
  also have "\<dots> = [seq log .. fst (split_log log)]" by (rule split_log_seqs)
  finally have newseq: "map (\<lambda>e. seq (snd e)) (zip [?n ..< ?n + length ?nl] ?nl) =
      [seq log .. fst (split_log log)]" .
  have "\<forall>e \<in> set (logs st). ?P (?F e) = ?P e" by (simp add: in_scope_def)
  moreover have "\<forall>e \<in> set (logs st). ?Q (?F e) = ?Q e" by simp
  ultimately have old: "filter ?P (filter ?Q (map ?F (logs st))) = map ?F ?ys"
    by (rule filter_filter_map_commute)
  have oldseq: "map (\<lambda>e. seq (snd e)) (map ?F ?ys) =
      map (renumber (seq log) (fst (split_log log) - seq log)) (map (\<lambda>e. seq (snd e)) ?ys)"
    by (simp add: later_log_def in_scope_def renumber_def)
  show ?thesis
    unfolding scope_seqs_def process_log_logs_map [OF assms]
    by (simp only: filter_append map_append new newseq old oldseq)
qed

lemma scope_rest:
  assumes "(i, log) \<in> set (logs st)" "distinct (map fst (logs st))"
    "contiguous (scope_seqs st (build_id log) (test_id log)) n"
  shows "distinct (map (\<lambda>e. seq (snd e))
             (filter (in_scope (build_id log) (test_id log))
                (filter (\<lambda>e. fst e \<noteq> i) (logs st)))) \<and>
         set (map (\<lambda>e. seq (snd e))
             (filter (in_scope (build_id log) (test_id log))
                (filter (\<lambda>e. fst e \<noteq> i) (logs st)))) = {1..n} - {seq log} \<and>
         seq log \<in> {1..n}"
proof -
  let ?P = "in_scope (build_id log) (test_id log)"
  let ?rest = "map (\<lambda>e. seq (snd e)) (filter ?P (filter (\<lambda>e. fst e \<noteq> i) (logs st)))"
  have "?P (i, log)" by (simp add: in_scope_def)
  with assms(2,1) have "mset (filter ?P (logs st)) =
      add_mset (i, log) (mset (filter ?P (filter (\<lambda>e. fst e \<noteq> i) (logs st))))"
    by (rule mset_filter_remove)
  then have "image_mset (\<lambda>e. seq (snd e)) (mset (filter ?P (logs st))) =
      image_mset (\<lambda>e. seq (snd e))
        (add_mset (i, log) (mset (filter ?P (filter (\<lambda>e. fst e \<noteq> i) (logs st)))))"
    by (simp only:)
  then have eq: "mset (scope_seqs st (build_id log) (test_id log)) = mset (seq log # ?rest)"
    by (simp add: scope_seqs_def)
  from assms(3) have d: "distinct (scope_seqs st (build_id log) (test_id log))"
    and s: "set (scope_seqs st (build_id log) (test_id log)) = {1..n}"
    by (simp_all add: contiguous_def)
  from eq d have d': "distinct (seq log # ?rest)" by (metis mset_eq_imp_distinct_iff)
  from eq s have s': "set (seq log # ?rest) = {1..n}" by (metis mset_eq_setD)
  from d' have "distinct ?rest" and notin: "seq log \<notin> set ?rest" by simp_all
  have gen: "insert a A = B \<Longrightarrow> a \<notin> A \<Longrightarrow> A = B - {a} \<and> a \<in> B"
    for a :: int and A B by auto
  from s' have ins: "insert (seq log) (set ?rest) = {1..n}" by (simp only: list.set)
  from gen [OF ins notin] have "set ?rest = {1..n} - {seq log}" and "seq log \<in> {1..n}"
    by (rule conjunct1, rule conjunct2)
  from this(1) this(2) \<open>distinct ?rest\<close> show ?thesis by (intro conjI)
qed

lemma process_log_own_scope_contiguous:
  assumes "(i, log) \<in> set (logs st)" "distinct (map fst (logs st))"
    "max_size < log_size (lines log)"
    "contiguous (scope_seqs st (build_id log) (test_id log)) n"
  shows "contiguous (scope_seqs (process_log st (i, log)) (build_id log) (test_id log))
     (n + (fst (split_log log) - seq log))"
proof -
  let ?inc = "fst (split_log log) - seq log"
  let ?rest = "map (\<lambda>e. seq (snd e))
             (filter (in_scope (build_id log) (test_id log))
                (filter (\<lambda>e. fst e \<noteq> i) (logs st)))"
  from scope_rest [OF assms(1,2,4)]
  have r: "distinct ?rest" "set ?rest = {1..n} - {seq log}" "seq log \<in> {1..n}" by simp_all
  have inc: "0 \<le> ?inc" using split_log_fst_ge [of log] by simp
  have "contiguous (map (renumber (seq log) ?inc) ?rest @ [seq log .. seq log + ?inc]) (n + ?inc)"
    using r inc by (rule contiguous_renumber)
  moreover have "seq log + ?inc = fst (split_log log)" by simp
  ultimately show ?thesis by (simp only: process_log_own_scope [OF assms(1-3)])
qed

lemma update_one_distinct:
  "distinct (map fst coll) \<Longrightarrow>
   update_one (has_id t) g coll = map (\<lambda>e. if fst e = t then (fst e, g (snd e)) else e) coll"
proof (induction coll)
  case Nil
  show ?case by simp
next
  case (Cons e coll)
  show ?case
  proof (cases "fst e = t")
    case True
    with Cons.prems have "\<forall>x \<in> set coll. fst x \<noteq> t" by (auto simp add: image_iff)
    then have "map (\<lambda>e. if fst e = t then (fst e, g (snd e)) else e) coll = coll"
      by (simp add: map_idI)
    with True show ?thesis by (simp add: has_id_eq)
  next
    case False
    with Cons show ?thesis by (simp add: has_id_eq)
  qed
qed

lemma process_log_other_scope_seqs:
  assumes "(i, log) \<in> set (logs st)" "distinct (map fst (logs st))"
    "max_size < log_size (lines log)" "(b, t) \<noteq> (build_id log, test_id log)"
  shows "scope_seqs (process_log st (i, log)) b t = scope_seqs st b t"
  unfolding scope_seqs_def by (simp only: process_log_other_scope [OF assms])

lemma process_log_builds_ok:
  assumes mem: "(i, log) \<in> set (logs st)" and dl: "distinct (map fst (logs st))"
    and db: "distinct (map fst (builds st))"
    and big: "max_size < log_size (lines log)"
    and ok: "list_all (build_scope_ok st) (builds st)"
  shows "list_all (build_scope_ok (process_log st (i, log))) (builds (process_log st (i, log)))"
proof -
  let ?st' = "process_log st (i, log)"
  let ?inc = "fst (split_log log) - seq log"
  have big': "max_size < log_size (lines (snd (i, log)))" using big by simp
  note own = process_log_owner [OF big', of st]
  show ?thesis
  proof (cases "test_id log")
    case (Some t0)
    with own have b: "builds ?st' = builds st" by simp
    have "build_scope_ok ?st' e" if "e \<in> set (builds st)" for e
    proof -
      have "(fst e, None) \<noteq> (build_id log, test_id log)" using Some by simp
      then have "scope_seqs ?st' (fst e) None = scope_seqs st (fst e) None"
        by (rule process_log_other_scope_seqs [OF mem dl big])
      moreover from ok that have "build_scope_ok st e" by (simp add: list_all_iff)
      ultimately show ?thesis by (simp add: build_scope_ok_def)
    qed
    then show ?thesis by (simp add: b list_all_iff)
  next
    case None
    let ?g = "\<lambda>d. d\<lparr>build_seq := build_seq d + ?inc\<rparr>"
    from own None have "builds ?st' = update_one (has_id (build_id log)) ?g (builds st)"
      by simp
    then have b: "builds ?st' =
        map (\<lambda>e. if fst e = build_id log then (fst e, ?g (snd e)) else e) (builds st)"
      by (simp only: update_one_distinct [OF db])
    have "build_scope_ok ?st' (if fst e = build_id log then (fst e, ?g (snd e)) else e)"
      if "e \<in> set (builds st)" for e
    proof (cases "fst e = build_id log")
      case True
      from ok that have "build_scope_ok st e" by (simp add: list_all_iff)
      then have "contiguous (scope_seqs st (build_id log) (test_id log)) (build_seq (snd e))"
        using True None by (simp add: build_scope_ok_def)
      then have "contiguous (scope_seqs ?st' (build_id log) (test_id log))
          (build_seq (snd e) + ?inc)"
        by (rule process_log_own_scope_contiguous [OF mem dl big])
      then show ?thesis using True None by (simp add: build_scope_ok_def)
    next
      case False
      then have "(fst e, None) \<noteq> (build_id log, test_id log)" by simp
      then have "scope_seqs ?st' (fst e) None = scope_seqs st (fst e) None"
        by (rule process_log_other_scope_seqs [OF mem dl big])
      moreover from ok that have "build_scope_ok st e" by (simp add: list_all_iff)
      ultimately show ?thesis using False by (simp add: build_scope_ok_def)
    qed
    then have "\<forall>e \<in> set (builds st). build_scope_ok ?st'
        (if fst e = build_id log then (fst e, ?g (snd e)) else e)"
      by (intro ballI)
    then show ?thesis unfolding b by (simp only: list_all_iff set_map ball_simps)
  qed
qed

lemma process_log_tests_ok:
  assumes mem: "(i, log) \<in> set (logs st)" and dl: "distinct (map fst (logs st))"
    and dt: "distinct (map fst (tests st))"
    and ub: "test_under_build st (i, log)"
    and big: "max_size < log_size (lines log)"
    and ok: "list_all (test_scope_ok st) (tests st)"
  shows "list_all (test_scope_ok (process_log st (i, log))) (tests (process_log st (i, log)))"
proof -
  let ?st' = "process_log st (i, log)"
  let ?inc = "fst (split_log log) - seq log"
  have big': "max_size < log_size (lines (snd (i, log)))" using big by simp
  note own = process_log_owner [OF big', of st]
  show ?thesis
  proof (cases "test_id log")
    case None
    with own have b: "tests ?st' = tests st" by simp
    have "test_scope_ok ?st' e" if "e \<in> set (tests st)" for e
    proof -
      have "(test_build_id (snd e), Some (fst e)) \<noteq> (build_id log, test_id log)"
        using None by simp
      then have "scope_seqs ?st' (test_build_id (snd e)) (Some (fst e)) =
          scope_seqs st (test_build_id (snd e)) (Some (fst e))"
        by (rule process_log_other_scope_seqs [OF mem dl big])
      moreover from ok that have "test_scope_ok st e" by (simp add: list_all_iff)
      ultimately show ?thesis by (simp add: test_scope_ok_def)
    qed
    then show ?thesis by (simp add: b list_all_iff)
  next
    case (Some t0)
    let ?g = "\<lambda>d. d\<lparr>test_seq := test_seq d + ?inc\<rparr>"
    from own Some have "tests ?st' = update_one (has_id t0) ?g (tests st)" by simp
    then have b: "tests ?st' =
        map (\<lambda>e. if fst e = t0 then (fst e, ?g (snd e)) else e) (tests st)"
      by (simp only: update_one_distinct [OF dt])
    have "test_scope_ok ?st' (if fst e = t0 then (fst e, ?g (snd e)) else e)"
      if "e \<in> set (tests st)" for e
    proof (cases "fst e = t0")
      case True
      have "(t0, snd e) \<in> set (tests st)"
        by (simp only: True [symmetric] prod.collapse that)
      with dt have "find_one (has_id t0) (tests st) = Some (t0, snd e)"
        by (rule find_one_distinct)
      with ub Some have bid: "test_build_id (snd e) = build_id log"
        by (simp add: test_under_build_def)
      from ok that have "test_scope_ok st e" by (simp add: list_all_iff)
      then have "contiguous (scope_seqs st (build_id log) (test_id log)) (test_seq (snd e))"
        using True Some bid by (simp add: test_scope_ok_def)
      then have "contiguous (scope_seqs ?st' (build_id log) (test_id log))
          (test_seq (snd e) + ?inc)"
        by (rule process_log_own_scope_contiguous [OF mem dl big])
      then show ?thesis using True Some bid by (simp add: test_scope_ok_def)
    next
      case False
      then have "(test_build_id (snd e), Some (fst e)) \<noteq> (build_id log, test_id log)"
        using Some by simp
      then have "scope_seqs ?st' (test_build_id (snd e)) (Some (fst e)) =
          scope_seqs st (test_build_id (snd e)) (Some (fst e))"
        by (rule process_log_other_scope_seqs [OF mem dl big])
      moreover from ok that have "test_scope_ok st e" by (simp add: list_all_iff)
      ultimately show ?thesis using False by (simp add: test_scope_ok_def)
    qed
    then have "\<forall>e \<in> set (tests st). test_scope_ok ?st'
        (if fst e = t0 then (fst e, ?g (snd e)) else e)"
      by (intro ballI)
    then show ?thesis unfolding b by (simp only: list_all_iff set_map ball_simps)
  qed
qed

lemma process_log_test_build_ids:
  "map_option (\<lambda>td. test_build_id (snd td)) (find_one (has_id t) (tests (process_log st entry))) =
   map_option (\<lambda>td. test_build_id (snd td)) (find_one (has_id t) (tests st))"
proof (cases "max_size < log_size (lines (snd entry))")
  case False
  then show ?thesis by (simp add: process_log_compliant)
next
  case True
  note own = process_log_owner [OF True, of st]
  show ?thesis
  proof (cases "test_id (snd entry)")
    case None
    with own show ?thesis by simp
  next
    case (Some t0)
    with own have t: "tests (process_log st entry) = update_one (has_id t0)
        (\<lambda>d. d\<lparr>test_seq := test_seq d + (fst (split_log (snd entry)) - seq (snd entry))\<rparr>)
        (tests st)"
      by simp
    show ?thesis
    proof (cases "t = t0")
      case True
      show ?thesis unfolding t True
        by (simp add: find_one_update_one_same option.map_comp comp_def)
    next
      case False
      then show ?thesis unfolding t by (simp add: find_one_update_one_other)
    qed
  qed
qed

lemma test_under_build_cong:
  assumes "\<And>t. map_option (\<lambda>td. test_build_id (snd td)) (find_one (has_id t) (tests st')) =
      map_option (\<lambda>td. test_build_id (snd td)) (find_one (has_id t) (tests st))"
    and "build_id (snd e') = build_id (snd e)" and "test_id (snd e') = test_id (snd e)"
  shows "test_under_build st' e' = test_under_build st e"
proof (cases "test_id (snd e)")
  case None
  with assms(3) show ?thesis by (simp add: test_under_build_def)
next
  case (Some t)
  from assms(1) [of t] show ?thesis
    unfolding test_under_build_def assms(2) assms(3) Some
    by (cases "find_one (has_id t) (tests st')"; cases "find_one (has_id t) (tests st)") auto
qed

lemma process_log_well_formed:
  assumes wf: "well_formed st" and mem: "(i, log) \<in> set (logs st)"
    and big: "max_size < log_size (lines log)"
  shows "well_formed (process_log st (i, log))"
proof -
  let ?st' = "process_log st (i, log)"
  let ?F = "\<lambda>e. if later_log log e
                 then (fst e, (snd e)\<lparr>seq := seq (snd e) + (fst (split_log log) - seq log)\<rparr>)
                 else e"
  let ?nl = "snd (split_log log)"
  let ?n = "new_oid (logs st)"
  from wf have db: "distinct (map fst (builds st))" and dt: "distinct (map fst (tests st))"
    and dl: "distinct (map fst (logs st))" and ub: "list_all (test_under_build st) (logs st)"
    by (simp_all add: well_formed_def)
  have big': "max_size < log_size (lines (snd (i, log)))" using big by simp
  note own = process_log_owner [OF big', of st]
  have db': "distinct (map fst (builds ?st'))"
    using own db by (cases "test_id log") simp_all
  have dt': "distinct (map fst (tests ?st'))"
    using own dt by (cases "test_id log") simp_all
  have dl': "distinct (map fst (logs ?st'))" using mem dl by (rule process_log_distinct)
  have ub_log: "test_under_build st (i, log)" using ub mem by (simp add: list_all_iff)
  have "test_under_build ?st' e'" if e': "e' \<in> set (logs ?st')" for e'
  proof -
    from e' have "e' \<in> set (filter (\<lambda>e. fst e \<noteq> i) (map ?F (logs st))) \<or>
        e' \<in> set (zip [?n ..< ?n + length ?nl] ?nl)"
      by (simp only: process_log_logs_map [OF mem dl big] set_append Un_iff)
    then show ?thesis
    proof
      assume a: "e' \<in> set (filter (\<lambda>e. fst e \<noteq> i) (map ?F (logs st)))"
      have "e' \<in> set (map ?F (logs st))" by (rule subsetD [OF filter_is_subset a])
      then have "e' \<in> ?F ` set (logs st)" by (simp only: set_map)
      then show ?thesis
      proof (rule imageE)
        fix e assume eq: "e' = ?F e" and e: "e \<in> set (logs st)"
        have "build_id (snd e') = build_id (snd e)" "test_id (snd e') = test_id (snd e)"
          unfolding eq by simp_all
        with process_log_test_build_ids
        have "test_under_build ?st' e' = test_under_build st e" by (rule test_under_build_cong)
        moreover from ub e have "test_under_build st e" by (simp add: list_all_iff)
        ultimately show ?thesis by simp
      qed
    next
      assume z: "e' \<in> set (zip [?n ..< ?n + length ?nl] ?nl)"
      obtain a c where x: "e' = (a, c)" by (cases e')
      with z have "(a, c) \<in> set (zip [?n ..< ?n + length ?nl] ?nl)" by simp
      then have "c \<in> set ?nl" by (rule set_zip_rightD)
      then have "build_id c = build_id log \<and> test_id c = test_id log \<and> started c = started log"
        by (rule split_log_scope)
      then have "build_id (snd e') = build_id (snd (i, log))"
          "test_id (snd e') = test_id (snd (i, log))"
        using x by simp_all
      with process_log_test_build_ids
      have "test_under_build ?st' e' = test_under_build st (i, log)"
        by (rule test_under_build_cong)
      with ub_log show ?thesis by simp
    qed
  qed
  then have "list_all (test_under_build ?st') (logs ?st')" by (simp add: list_all_iff)
  with db' dt' dl' show ?thesis by (simp add: well_formed_def)
qed

lemma process_log_seq_invariant:
  assumes wf: "well_formed st" and inv: "seq_invariant st" and mem: "(i, log) \<in> set (logs st)"
    and big: "max_size < log_size (lines log)"
  shows "seq_invariant (process_log st (i, log))"
proof -
  from wf have db: "distinct (map fst (builds st))" and dt: "distinct (map fst (tests st))"
    and dl: "distinct (map fst (logs st))" and ub: "list_all (test_under_build st) (logs st)"
    by (simp_all add: well_formed_def)
  from ub mem have ub_log: "test_under_build st (i, log)" by (simp add: list_all_iff)
  from inv have okb: "list_all (build_scope_ok st) (builds st)"
    and okt: "list_all (test_scope_ok st) (tests st)"
    by (simp_all add: seq_invariant_def)
  from process_log_builds_ok [OF mem dl db big okb] process_log_tests_ok [OF mem dl dt ub_log big okt]
  show ?thesis by (simp add: seq_invariant_def)
qed

lemma visit_preserves:
  assumes "well_formed st \<and> seq_invariant st"
  shows "well_formed (visit i st) \<and> seq_invariant (visit i st)"
proof (cases "find_one (has_id i) (logs st)")
  case None
  with assms show ?thesis by (simp add: visit_def)
next
  case (Some entry)
  then have mem: "entry \<in> set (logs st)" by (simp add: find_one_Some)
  have v: "visit i st = process_log st entry" using Some by (simp add: visit_def)
  show ?thesis
  proof (cases "max_size < log_size (lines (snd entry))")
    case False
    then have "process_log st entry = st" by (simp add: process_log_compliant)
    with assms v show ?thesis by simp
  next
    case True
    obtain j log where entry: "entry = (j, log)" by (cases entry)
    from mem True have m: "(j, log) \<in> set (logs st)" and b: "max_size < log_size (lines log)"
      by (simp_all add: entry)
    from assms have wf: "well_formed st" and inv: "seq_invariant st" by simp_all
    from process_log_well_formed [OF wf m b] process_log_seq_invariant [OF wf inv m b]
    show ?thesis unfolding v entry by (rule conjI)
  qed
qed

lemma fold_visit_preserves:
  "well_formed st \<and> seq_invariant st \<Longrightarrow>
   well_formed (fold visit ids st) \<and> seq_invariant (fold visit ids st)"
proof (induction ids arbitrary: st)
  case Nil
  then show ?case by simp
next
  case (Cons i ids)
  from Cons.prems have "well_formed (visit i st) \<and> seq_invariant (visit i st)"
    by (rule visit_preserves)
  then have "well_formed (fold visit ids (visit i st)) \<and>
      seq_invariant (fold visit ids (visit i st))"
    by (rule Cons.IH)
  then show ?case by simp
qed

lemma scope_count:
  "contiguous (scope_seqs st b t) n \<Longrightarrow> int (length (filter (in_scope b t) (logs st))) = n"
  using contiguous_length [of "scope_seqs st b t" n] by (simp add: scope_seqs_def)

lemma contiguous_123: "contiguous [1, 2, 3] 3" "contiguous [] 0"
proof -
  have "{1..3::int} = set [1..3]" by (simp only: set_upto)
  also have "\<dots> = {1, 2, 3}" by (simp add: upto_rec1 del: set_upto)
  finally show "contiguous [1, 2, 3] 3" by (simp add: contiguous_def)
  show "contiguous [] 0" by (simp add: contiguous_def)
qed

lemma scenario_well_formed: "well_formed scenario_store"
  by (simp add: well_formed_def scenario_store_def three_logs_def upt_rec
      test_under_build_def find_one_def has_id_eq)

lemma scenario_seq_invariant: "seq_invariant scenario_store"
  using contiguous_123
  by (simp add: seq_invariant_def build_scope_ok_def test_scope_ok_def scope_seqs_def
      in_scope_def scenario_store_def three_logs_def upt_rec)

lemma scenario_migrated:
  "break_up_large_documents scenario_store =
   \<lparr>builds = [(0, \<lparr>build_name = ''global_build'', build_seq = 4\<rparr>),
              (1, \<lparr>build_name = ''build'', build_seq = 0\<rparr>)],
    tests = [(0, \<lparr>test_name = ''test'', test_build_id = 1, test_seq = 4\<rparr>)],
    logs = [(0, migrated_logs sample_now 0 0 None ! 0), (2, migrated_logs sample_now 0 0 None ! 3),
            (3, migrated_logs sample_now 4 1 (Some 0) ! 0),
            (5, migrated_logs sample_now 4 1 (Some 0) ! 3),
            (6, migrated_logs sample_now 0 0 None ! 1), (7, migrated_logs sample_now 0 0 None ! 2),
            (8, migrated_logs sample_now 4 1 (Some 0) ! 1),
            (9, migrated_logs sample_now 4 1 (Some 0) ! 2)]\<rparr>"
  unfolding scenario_store_def by (rule migrate_fixture)

section \<open>Facts about the scan\<close>

lemma set_delete_one: "set (delete_one p xs) \<subseteq> set xs"
  by (induction xs) auto

lemma process_log_ids_bound:
  assumes "entry \<in> set (logs st)"
  shows "new_oid (logs st) \<le> new_oid (logs (process_log st entry)) \<and>
     (\<forall>e \<in> set (logs (process_log st entry)).
        fst e \<in> fst ` set (logs st) \<or> new_oid (logs st) \<le> fst e)"
proof (cases "max_size < log_size (lines (snd entry))")
  case False
  then show ?thesis by (simp add: process_log_compliant)
next
  case True
  let ?nl = "snd (split_log (snd entry))"
  let ?n = "new_oid (logs st)"
  let ?upd = "update_many (later_log (snd entry))
          (\<lambda>d. d\<lparr>seq := seq d + (fst (split_log (snd entry)) - seq (snd entry))\<rparr>) (logs st)"
  let ?new = "zip [?n ..< ?n + length ?nl] ?nl"
  note l = process_log_logs [OF assms True]
  obtain y ys where nl: "?nl = y # ys" using split_log_nonempty [of "snd entry"]
    by (cases ?nl) auto
  have "(?n, y) \<in> set ?new" unfolding nl by (rule zip_upt_first)
  then have "(?n, y) \<in> set (logs (process_log st entry))" unfolding l by simp
  then have "fst (?n, y) < new_oid (logs (process_log st entry))" by (rule new_oid_fresh)
  then have mono: "?n \<le> new_oid (logs (process_log st entry))" by simp
  have "fst e \<in> fst ` set (logs st) \<or> ?n \<le> fst e"
    if "e \<in> set (logs (process_log st entry))" for e
  proof -
    from that have "e \<in> set (delete_one (has_id (fst entry)) ?upd) \<or> e \<in> set ?new"
      unfolding l by simp
    then show ?thesis
    proof
      assume "e \<in> set (delete_one (has_id (fst entry)) ?upd)"
      with set_delete_one have "e \<in> set ?upd" by (rule subsetD)
      then have "fst e \<in> set (map fst ?upd)" by (simp only: set_map imageI)
      then show ?thesis by simp
    next
      assume "e \<in> set ?new"
      then have "fst e \<in> set (map fst ?new)" by (simp only: set_map imageI)
      then have "fst e \<in> set [?n ..< ?n + length ?nl]" by (simp add: map_fst_zip)
      then show ?thesis by simp
    qed
  qed
  with mono show ?thesis by blast
qed

lemma visit_ids_bound:
  "new_oid (logs st) \<le> new_oid (logs (visit i st)) \<and>
   (\<forall>e \<in> set (logs (visit i st)). fst e \<in> fst ` set (logs st) \<or> new_oid (logs st) \<le> fst e)"
proof (cases "find_one (has_id i) (logs st)")
  case None
  then show ?thesis by (simp add: visit_def)
next
  case (Some entry)
  then have "entry \<in> set (logs st)" by (simp add: find_one_Some)
  then show ?thesis using Some by (simp add: visit_def process_log_ids_bound)
qed

lemma fold_visit_ids_bound:
  "new_oid (logs st) \<le> new_oid (logs (fold visit ids st)) \<and>
   (\<forall>e \<in> set (logs (fold visit ids st)).
      fst e \<in> fst ` set (logs st) \<or> new_oid (logs st) \<le> fst e)"
proof (induction ids arbitrary: st)
  case Nil
  show ?case by simp
next
  case (Cons i ids)
  let ?st1 = "visit i st"
  note v = visit_ids_bound [of st i]
  note ih = Cons.IH [of ?st1]
  have mono: "new_oid (logs st) \<le> new_oid (logs (fold visit ids ?st1))"
    using v ih by linarith
  have "fst e \<in> fst ` set (logs st) \<or> new_oid (logs st) \<le> fst e"
    if e: "e \<in> set (logs (fold visit ids ?st1))" for e
  proof -
    from ih e have "fst e \<in> fst ` set (logs ?st1) \<or> new_oid (logs ?st1) \<le> fst e" by blast
    then show ?thesis
    proof
      assume "fst e \<in> fst ` set (logs ?st1)"
      then obtain e1 where e1: "e1 \<in> set (logs ?st1)" and eq: "fst e = fst e1" by auto
      from v e1 have "fst e1 \<in> fst ` set (logs st) \<or> new_oid (logs st) \<le> fst e1" by blast
      with eq show ?thesis by simp
    next
      assume "new_oid (logs ?st1) \<le> fst e"
      with v show ?thesis by linarith
    qed
  qed
  with mono show ?case by simp
qed

lemma scan_state_Suc:
  assumes "k < length (scan_ids st)"
  shows "scan_state st (Suc k) = visit (scan_ids st ! k) (scan_state st k)"
proof -
  from assms have "take (Suc k) (scan_ids st) = take k (scan_ids st) @ [scan_ids st ! k]"
    by (rule take_Suc_conv_app_nth)
  then show ?thesis by (simp add: scan_state_def)
qed

lemma scenario_scan_ids: "scan_ids scenario_store = [0, 1, 2, 3, 4, 5]"
  by (simp add: scan_ids_def scenario_logs)

section \<open>Facts about a second run\<close>

lemma split_log_small_lines:
  assumes "small_lines log" "c \<in> set (snd (split_log log))"
  shows "small_lines c"
proof -
  have "set (lines c) \<subseteq> set (concat (map lines (snd (split_log log))))"
    using assms(2) by auto
  then have "set (lines c) \<subseteq> set (lines log)" by (simp only: split_log_concat)
  with assms(1) show ?thesis by (auto simp add: small_lines_def list_all_iff)
qed

lemma split_log_compliant:
  assumes "small_lines log" "c \<in> set (snd (split_log log))"
  shows "log_size (lines c) \<le> max_size"
proof -
  from assms have s: "small_lines c" by (rule split_log_small_lines)
  from split_log_fits [of log] assms(2) have "fits c" by (simp add: list_all_iff)
  then show ?thesis
  proof (unfold fits_def, elim disjE exE conjE)
    assume "log_size (lines c) \<le> max_size"
    then show ?thesis .
  next
    fix line assume l: "lines c = [line]" and big: "max_size < length (snd line)"
    from s l have "length (snd line) \<le> max_size" by (simp add: small_lines_def)
    with big show ?thesis by simp
  qed
qed

lemma fold_visit_all_compliant:
  assumes "\<forall>e \<in> set (logs st). log_size (lines (snd e)) \<le> max_size"
  shows "fold visit ids st = st"
proof (induction ids)
  case Nil
  show ?case by simp
next
  case (Cons i ids)
  have "visit i st = st"
  proof (cases "find_one (has_id i) (logs st)")
    case None
    then show ?thesis by (simp add: visit_def)
  next
    case (Some entry)
    then have "entry \<in> set (logs st)" by (simp add: find_one_Some)
    with assms have "log_size (lines (snd entry)) \<le> max_size" by (rule bspec)
    then have "process_log st entry = st" by (rule process_log_compliant)
    with Some show ?thesis by (simp add: visit_def)
  qed
  with Cons.IH show ?case by simp
qed

lemma visit_pending:
  assumes "pending st (i # ids)"
  shows "pending (visit i st) ids"
proof -
  from assms have d: "distinct (map fst (logs st))"
    and sm: "\<forall>e \<in> set (logs st). small_lines (snd e)"
    and pe: "\<forall>e \<in> set (logs st). log_size (lines (snd e)) \<le> max_size \<or> fst e \<in> set (i # ids)"
    by (simp_all add: pending_def list_all_iff)
  show ?thesis
  proof (cases "find_one (has_id i) (logs st)")
    case None
    then have "i \<notin> fst ` set (logs st)" by (rule find_one_None)
    with pe have "\<forall>e \<in> set (logs st). log_size (lines (snd e)) \<le> max_size \<or> fst e \<in> set ids"
      by auto
    with d sm None show ?thesis by (simp add: pending_def list_all_iff visit_def)
  next
    case (Some entry)
    then have mem: "entry \<in> set (logs st)" and fi: "fst entry = i"
      by (simp_all add: find_one_Some)
    have v: "visit i st = process_log st entry" using Some by (simp add: visit_def)
    show ?thesis
    proof (cases "max_size < log_size (lines (snd entry))")
      case False
      then have same: "process_log st entry = st" by (simp add: process_log_compliant)
      have "log_size (lines (snd e)) \<le> max_size \<or> fst e \<in> set ids"
        if e: "e \<in> set (logs st)" for e
      proof (cases "fst e = i")
        case True
        have "entry = (i, snd entry)" using fi by (cases entry) simp
        with mem have "(i, snd entry) \<in> set (logs st)" by simp
        with d have "e = (i, snd entry)" using e True by (rule entry_unique)
        with False show ?thesis by simp
      next
        case ne: False
        with pe e show ?thesis by auto
      qed
      with d sm show ?thesis by (simp add: pending_def list_all_iff v same)
    next
      case True
      obtain log where entry: "entry = (i, log)" using fi by (cases entry) simp
      from mem True have m: "(i, log) \<in> set (logs st)" and big: "max_size < log_size (lines log)"
        by (simp_all add: entry)
      let ?st' = "process_log st (i, log)"
      let ?F = "\<lambda>e. if later_log log e
                 then (fst e, (snd e)\<lparr>seq := seq (snd e) + (fst (split_log log) - seq log)\<rparr>)
                 else e"
      let ?nl = "snd (split_log log)"
      let ?n = "new_oid (logs st)"
      have d': "distinct (map fst (logs ?st'))" using m d by (rule process_log_distinct)
      from sm m have sml: "small_lines log" by auto
      have each: "small_lines (snd e') \<and>
          (log_size (lines (snd e')) \<le> max_size \<or> fst e' \<in> set ids)"
        if e': "e' \<in> set (logs ?st')" for e'
      proof -
        from e' have "e' \<in> set (filter (\<lambda>e. fst e \<noteq> i) (map ?F (logs st))) \<or>
            e' \<in> set (zip [?n ..< ?n + length ?nl] ?nl)"
          by (simp only: process_log_logs_map [OF m d big] set_append Un_iff)
        then show ?thesis
        proof
          assume a: "e' \<in> set (filter (\<lambda>e. fst e \<noteq> i) (map ?F (logs st)))"
          then have ni: "fst e' \<noteq> i" by simp
          have "e' \<in> set (map ?F (logs st))" by (rule subsetD [OF filter_is_subset a])
          then have "e' \<in> ?F ` set (logs st)" by (simp only: set_map)
          then show ?thesis
          proof (rule imageE)
            fix e assume eq: "e' = ?F e" and e: "e \<in> set (logs st)"
            have l: "lines (snd e') = lines (snd e)" and f: "fst e' = fst e"
              unfolding eq by simp_all
            from sm e have "small_lines (snd e)" by (rule bspec)
            then have "small_lines (snd e')" using l by (simp add: small_lines_def)
            moreover from pe e have "log_size (lines (snd e)) \<le> max_size \<or> fst e \<in> set (i # ids)"
              by (rule bspec)
            then have "log_size (lines (snd e')) \<le> max_size \<or> fst e' \<in> set ids"
              using ni l f by auto
            ultimately show ?thesis by (rule conjI)
          qed
        next
          assume z: "e' \<in> set (zip [?n ..< ?n + length ?nl] ?nl)"
          obtain a c where x: "e' = (a, c)" by (cases e')
          with z have "(a, c) \<in> set (zip [?n ..< ?n + length ?nl] ?nl)" by simp
          then have c: "c \<in> set ?nl" by (rule set_zip_rightD)
          from sml c have "small_lines c" by (rule split_log_small_lines)
          moreover from sml c have "log_size (lines c) \<le> max_size" by (rule split_log_compliant)
          ultimately show ?thesis using x by simp
        qed
      qed
      then have "\<forall>e' \<in> set (logs ?st'). small_lines (snd e')"
        and "\<forall>e' \<in> set (logs ?st'). log_size (lines (snd e')) \<le> max_size \<or> fst e' \<in> set ids"
        by simp_all
      with d' show ?thesis unfolding v entry by (simp add: pending_def list_all_iff)
    qed
  qed
qed

lemma fold_visit_pending:
  "pending st ids \<Longrightarrow> pending (fold visit ids st) []"
proof (induction ids arbitrary: st)
  case Nil
  then show ?case by simp
next
  case (Cons i ids)
  from Cons.prems have "pending (visit i st) ids" by (rule visit_pending)
  then have "pending (fold visit ids (visit i st)) []" by (rule Cons.IH)
  then show ?case by simp
qed

lemma one_log_store_once:
  "break_up_large_documents one_log_store =
     \<lparr>builds = [(0, \<lparr>build_name = ''global_build'', build_seq = 2\<rparr>)], tests = [],
      logs = [(1, mk_new_log one_big_line_log 1),
              (2, (mk_new_log one_big_line_log 2)\<lparr>lines := lines one_big_line_log\<rparr>)]\<rparr>"
  by (simp add: break_up_large_documents_def scan_ids_def visit_def find_one_def has_id_eq
      process_log_def split_log_def mk_new_log_def later_log_def update_many_def
      insert_many_def insert_one_def new_oid_def one_log_store_def one_big_line_log_def Let_def)

lemma one_log_store_twice:
  "break_up_large_documents (break_up_large_documents one_log_store) =
     \<lparr>builds = [(0, \<lparr>build_name = ''global_build'', build_seq = 3\<rparr>)], tests = [],
      logs = [(1, mk_new_log one_big_line_log 1),
              (3, mk_new_log one_big_line_log 2),
              (4, (mk_new_log one_big_line_log 3)\<lparr>lines := lines one_big_line_log\<rparr>)]\<rparr>"
  unfolding one_log_store_once
  by (simp add: break_up_large_documents_def scan_ids_def visit_def find_one_def has_id_eq
      process_log_def split_log_def mk_new_log_def later_log_def update_many_def
      insert_many_def insert_one_def new_oid_def one_big_line_log_def Let_def)

section \<open>The claims of the specification\<close>

text \<open>
  Claim C1 says that a new chunk is opened only when the running size plus the next line
  exceeds the bound and the current chunk already holds a line, so that a one-line
  oversized chunk is returned as a single unchanged chunk. The test at line 162 has no
  such second condition: on a log whose only line is larger than \<open>max_size\<close> the
  splitter returns two chunks, an empty one at the original \<^verbatim>\<open>seq\<close> and one with the
  line at the next \<^verbatim>\<open>seq\<close>.
\<close>

theorem C1_single_oversized_line_gives_two_chunks:
  "max_size < log_size (lines one_big_line_log) \<and>
   length (lines one_big_line_log) = 1 \<and>
   split_log one_big_line_log =
     (2, [\<lparr>build_id = 0, test_id = None, seq = 1, started = Datetime 2015 1 1 0 0 0 0,
           lines = []\<rparr>,
          \<lparr>build_id = 0, test_id = None, seq = 2, started = Datetime 2015 1 1 0 0 0 0,
           lines = lines one_big_line_log\<rparr>])"
  by (simp add: one_big_line_log_def split_log_def mk_new_log_def)

text \<open>
  Claim C2: the migration preserves the sequence invariant. A store is well formed when
  identities are unique in each collection and a log that names an existing test names
  the build of that test. The invariant says, for every build and for every test, that
  the \<^verbatim>\<open>seq\<close> values of the logs in its scope are distinct and are exactly the set
  \<open>{1..N}\<close>, with \<open>N\<close> the owner's counter (a count, so not negative). If both hold
  before the migration, both hold after it; in particular every owner's counter is then
  the number of logs stored in its scope.
\<close>

theorem C2_contiguity_preserved:
  assumes "well_formed st" and "seq_invariant st"
  shows "well_formed (break_up_large_documents st) \<and>
    seq_invariant (break_up_large_documents st) \<and>
    list_all (\<lambda>e. int (length (filter (in_scope (fst e) None)
                                  (logs (break_up_large_documents st)))) = build_seq (snd e))
      (builds (break_up_large_documents st)) \<and>
    list_all (\<lambda>e. int (length (filter (in_scope (test_build_id (snd e)) (Some (fst e)))
                                  (logs (break_up_large_documents st)))) = test_seq (snd e))
      (tests (break_up_large_documents st))"
proof -
  let ?st' = "break_up_large_documents st"
  from assms have "well_formed st \<and> seq_invariant st" by simp
  then have "well_formed (fold visit (scan_ids st) st) \<and>
      seq_invariant (fold visit (scan_ids st) st)"
    by (rule fold_visit_preserves)
  then have wf: "well_formed ?st'" and inv: "seq_invariant ?st'"
    by (simp_all add: break_up_large_documents_def)
  from inv have "list_all (build_scope_ok ?st') (builds ?st')"
    and "list_all (test_scope_ok ?st') (tests ?st')"
    by (simp_all add: seq_invariant_def)
  then have "list_all (\<lambda>e. int (length (filter (in_scope (fst e) None) (logs ?st'))) =
        build_seq (snd e)) (builds ?st')"
    and "list_all (\<lambda>e. int (length (filter (in_scope (test_build_id (snd e)) (Some (fst e)))
        (logs ?st'))) = test_seq (snd e)) (tests ?st')"
    by (simp_all add: list_all_iff build_scope_ok_def test_scope_ok_def scope_count)
  with wf inv show ?thesis by (intro conjI)
qed

theorem C2_contiguity_preserved_witness:
  "well_formed scenario_store \<and> seq_invariant scenario_store \<and>
   well_formed (break_up_large_documents scenario_store) \<and>
   seq_invariant (break_up_large_documents scenario_store) \<and>
   scope_seqs (break_up_large_documents scenario_store) 0 None = [1, 4, 2, 3] \<and>
   map (\<lambda>e. build_seq (snd e)) (builds (break_up_large_documents scenario_store)) = [4, 0] \<and>
   scope_seqs (break_up_large_documents scenario_store) 1 (Some 0) = [1, 4, 2, 3] \<and>
   map (\<lambda>e. test_seq (snd e)) (tests (break_up_large_documents scenario_store)) = [4]"
proof -
  note T = C2_contiguity_preserved [OF scenario_well_formed scenario_seq_invariant]
  have a: "scope_seqs (break_up_large_documents scenario_store) 0 None = [1, 4, 2, 3]"
    unfolding scenario_migrated
    by (simp add: scope_seqs_def in_scope_def migrated_logs_def single_line_log_def)
  have b: "scope_seqs (break_up_large_documents scenario_store) 1 (Some 0) = [1, 4, 2, 3]"
    unfolding scenario_migrated
    by (simp add: scope_seqs_def in_scope_def migrated_logs_def single_line_log_def)
  have c: "map (\<lambda>e. build_seq (snd e)) (builds (break_up_large_documents scenario_store)) = [4, 0]"
    "map (\<lambda>e. test_seq (snd e)) (tests (break_up_large_documents scenario_store)) = [4]"
    unfolding scenario_migrated by simp_all
  from T have "well_formed (break_up_large_documents scenario_store)"
    and "seq_invariant (break_up_large_documents scenario_store)"
    by simp_all
  with scenario_well_formed scenario_seq_invariant a b c show ?thesis by (intro conjI)
qed

text \<open>
  Claim C3: every chunk the splitter returns has an aggregate payload size of at most
  \<open>max_size\<close>, except a chunk that consists of exactly one line whose own size already
  exceeds \<open>max_size\<close>.
\<close>

theorem C3_size_bound:
  "\<forall>c \<in> set (snd (split_log log)).
     log_size (lines c) \<le> max_size \<or>
     (\<exists>line. lines c = [line] \<and> max_size < length (snd line))"
  using split_log_fits [of log] by (simp add: list_all_iff fits_def)

theorem C3_size_bound_witness:
  "max_size < log_size (lines two_line_log) \<and>
   length (snd (split_log two_line_log)) = 2 \<and>
   list_all (\<lambda>c. log_size (lines c) \<le> max_size \<or>
     (\<exists>line. lines c = [line] \<and> max_size < length (snd line))) (snd (split_log two_line_log))"
  using C3_size_bound [of two_line_log]
  by (simp add: list_all_iff two_line_log_def split_log_def mk_new_log_def max_size_def)

text \<open>
  Claim C5: when the iteration for an oversized log with \<^verbatim>\<open>seq\<close> \<open>s\<close> splits it into \<open>m\<close>
  new logs, the increment computed at line 178 is \<open>m - 1\<close>; every other log of the same
  owner scope with a larger \<^verbatim>\<open>seq\<close> is stored with its \<^verbatim>\<open>seq\<close> increased by exactly
  that amount, every other log (a \<^verbatim>\<open>seq\<close> of at most \<open>s\<close>, or another scope) is stored
  unchanged; the counter of the owning test (when the log has a \<^verbatim>\<open>test_id\<close>), otherwise
  of the owning build, is increased by exactly that amount, and no other counter changes.
\<close>

theorem C5_renumbering:
  assumes "(i, log) \<in> set (logs st)" and "distinct (map fst (logs st))"
    and "max_size < log_size (lines log)"
  shows "int (length (snd (split_log log))) - 1 = fst (split_log log) - seq log \<and>
    (\<forall>e \<in> set (logs st). fst e \<noteq> i \<longrightarrow>
       find_one (has_id (fst e)) (logs (process_log st (i, log))) =
         Some (fst e,
               if in_scope (build_id log) (test_id log) e \<and> seq log < seq (snd e)
               then (snd e)\<lparr>seq := seq (snd e) + (int (length (snd (split_log log))) - 1)\<rparr>
               else snd e)) \<and>
    (case test_id log of
       Some t \<Rightarrow>
         (\<forall>t'. counter_of test_seq (tests (process_log st (i, log))) t' =
            (if t' = t
             then map_option (\<lambda>n. n + (int (length (snd (split_log log))) - 1))
                    (counter_of test_seq (tests st) t)
             else counter_of test_seq (tests st) t')) \<and>
         builds (process_log st (i, log)) = builds st
     | None \<Rightarrow>
         (\<forall>b. counter_of build_seq (builds (process_log st (i, log))) b =
            (if b = build_id log
             then map_option (\<lambda>n. n + (int (length (snd (split_log log))) - 1))
                    (counter_of build_seq (builds st) (build_id log))
             else counter_of build_seq (builds st) b)) \<and>
         tests (process_log st (i, log)) = tests st)"
proof -
  have inc: "int (length (snd (split_log log))) - 1 = fst (split_log log) - seq log"
    by (simp add: split_log_length)
  have big: "max_size < log_size (lines (snd (i, log)))" using assms(3) by simp
  have sib: "\<forall>e \<in> set (logs st). fst e \<noteq> i \<longrightarrow>
       find_one (has_id (fst e)) (logs (process_log st (i, log))) =
         Some (fst e,
               if in_scope (build_id log) (test_id log) e \<and> seq log < seq (snd e)
               then (snd e)\<lparr>seq := seq (snd e) + (int (length (snd (split_log log))) - 1)\<rparr>
               else snd e)"
    unfolding inc using process_log_sibling [OF assms] by blast
  have own: "case test_id log of
       Some t \<Rightarrow>
         (\<forall>t'. counter_of test_seq (tests (process_log st (i, log))) t' =
            (if t' = t
             then map_option (\<lambda>n. n + (int (length (snd (split_log log))) - 1))
                    (counter_of test_seq (tests st) t)
             else counter_of test_seq (tests st) t')) \<and>
         builds (process_log st (i, log)) = builds st
     | None \<Rightarrow>
         (\<forall>b. counter_of build_seq (builds (process_log st (i, log))) b =
            (if b = build_id log
             then map_option (\<lambda>n. n + (int (length (snd (split_log log))) - 1))
                    (counter_of build_seq (builds st) (build_id log))
             else counter_of build_seq (builds st) b)) \<and>
         tests (process_log st (i, log)) = tests st"
    unfolding inc using process_log_owner [OF big, of st]
    by (cases "test_id log") (simp_all add: counter_of_update_one)
  from inc sib own show ?thesis by (intro conjI)
qed

theorem C5_renumbering_witness:
  "(1, three_logs sample_now 0 0 None ! 1) \<in> set (logs scenario_store) \<and>
   distinct (map fst (logs scenario_store)) \<and>
   max_size < log_size (lines (three_logs sample_now 0 0 None ! 1)) \<and>
   int (length (snd (split_log (three_logs sample_now 0 0 None ! 1)))) - 1 = 1 \<and>
   find_one (has_id 2)
     (logs (process_log scenario_store (1, three_logs sample_now 0 0 None ! 1))) =
     Some (2, (three_logs sample_now 0 0 None ! 2)\<lparr>seq := 4\<rparr>) \<and>
   find_one (has_id 0)
     (logs (process_log scenario_store (1, three_logs sample_now 0 0 None ! 1))) =
     Some (0, three_logs sample_now 0 0 None ! 0) \<and>
   find_one (has_id 5)
     (logs (process_log scenario_store (1, three_logs sample_now 0 0 None ! 1))) =
     Some (5, three_logs sample_now 4 1 (Some 0) ! 2) \<and>
   counter_of build_seq
     (builds (process_log scenario_store (1, three_logs sample_now 0 0 None ! 1))) 0 = Some 4 \<and>
   counter_of build_seq
     (builds (process_log scenario_store (1, three_logs sample_now 0 0 None ! 1))) 1 = Some 0 \<and>
   tests (process_log scenario_store (1, three_logs sample_now 0 0 None ! 1)) =
     tests scenario_store"
proof -
  let ?log = "three_logs sample_now 0 0 None ! 1"
  let ?st' = "process_log scenario_store (1, ?log)"
  have h1: "(1, ?log) \<in> set (logs scenario_store)" by (simp add: scenario_logs)
  have h2: "distinct (map fst (logs scenario_store))" by (simp add: scenario_logs)
  have h3: "max_size < log_size (lines ?log)" by (rule two_line_oversized)
  note T = C5_renumbering [OF h1 h2 h3]
  have m: "int (length (snd (split_log ?log))) - 1 = 1" unfolding two_line_split by simp
  have scope: "build_id ?log = 0" "test_id ?log = None" "seq ?log = 2"
    by (simp_all add: three_logs_def)
  from T have sib: "\<forall>e \<in> set (logs scenario_store). fst e \<noteq> 1 \<longrightarrow>
       find_one (has_id (fst e)) (logs ?st') =
         Some (fst e, if in_scope 0 None e \<and> 2 < seq (snd e)
               then (snd e)\<lparr>seq := seq (snd e) + 1\<rparr> else snd e)"
    unfolding m scope by (rule conjunct1 [OF conjunct2])
  from T have own: "(\<forall>b. counter_of build_seq (builds ?st') b =
            (if b = 0 then map_option (\<lambda>n. n + 1) (counter_of build_seq (builds scenario_store) 0)
             else counter_of build_seq (builds scenario_store) b)) \<and>
         tests ?st' = tests scenario_store"
    unfolding m scope by simp
  have e2: "find_one (has_id 2) (logs ?st') = Some (2, (three_logs sample_now 0 0 None ! 2)\<lparr>seq := 4\<rparr>)"
    using sib [rule_format, of "(2, three_logs sample_now 0 0 None ! 2)"]
    by (simp add: scenario_logs in_scope_def three_logs_def)
  have e0: "find_one (has_id 0) (logs ?st') = Some (0, three_logs sample_now 0 0 None ! 0)"
    using sib [rule_format, of "(0, three_logs sample_now 0 0 None ! 0)"]
    by (simp add: scenario_logs in_scope_def three_logs_def)
  have e5: "find_one (has_id 5) (logs ?st') = Some (5, three_logs sample_now 4 1 (Some 0) ! 2)"
    using sib [rule_format, of "(5, three_logs sample_now 4 1 (Some 0) ! 2)"]
    by (simp add: scenario_logs in_scope_def three_logs_def)
  have c0: "counter_of build_seq (builds ?st') 0 = Some 4"
    using own by (simp add: scenario_store_def counter_of_def find_one_def has_id_eq)
  have c1: "counter_of build_seq (builds ?st') 1 = Some 0"
    using own by (simp add: scenario_store_def counter_of_def find_one_def has_id_eq)
  from h1 h2 h3 m e2 e0 e5 c0 c1 own show ?thesis by (intro conjI) simp_all
qed

text \<open>
  Claim C6: on the fixture of the self-test, the build-scoped logs (seq 1, 2, 3 with one,
  two and one line of 3 MB, counter 3) become four logs of one 3 MB line each, with seq
  1 to 4, started at the first, second, second and third date, and the counter of the
  build becomes 4. On the test-scoped copy of the layout the counter of the test goes
  from 3 to 4, while the counter of its build is 0 before, after every iteration of the
  scan, and at the end. The self-test reports success.
\<close>

theorem C6_scenarios:
  "\<exists>fx. test_setup utcnow = Some fx \<and>
     map snd (scope_logs (fx_db fx) (fx_global_build fx) None) =
       three_logs utcnow 0 (fx_global_build fx) None \<and>
     counter_of build_seq (builds (fx_db fx)) (fx_global_build fx) = Some 3 \<and>
     map snd (scope_logs (break_up_large_documents (fx_db fx)) (fx_global_build fx) None) =
       migrated_logs utcnow 0 (fx_global_build fx) None \<and>
     counter_of build_seq (builds (break_up_large_documents (fx_db fx))) (fx_global_build fx) =
       Some 4 \<and>
     map snd (scope_logs (fx_db fx) (fx_build fx) (Some (fx_test fx))) =
       three_logs utcnow 4 (fx_build fx) (Some (fx_test fx)) \<and>
     counter_of test_seq (tests (fx_db fx)) (fx_test fx) = Some 3 \<and>
     map snd (scope_logs (break_up_large_documents (fx_db fx)) (fx_build fx) (Some (fx_test fx))) =
       migrated_logs utcnow 4 (fx_build fx) (Some (fx_test fx)) \<and>
     counter_of test_seq (tests (break_up_large_documents (fx_db fx))) (fx_test fx) = Some 4 \<and>
     scope_logs (fx_db fx) (fx_build fx) None = [] \<and>
     scope_logs (break_up_large_documents (fx_db fx)) (fx_build fx) None = [] \<and>
     list_all (\<lambda>k. counter_of build_seq
                (builds (fold visit (take k (scan_ids (fx_db fx))) (fx_db fx))) (fx_build fx) =
                Some 0)
         [0 ..< Suc (length (scan_ids (fx_db fx)))] \<and>
     test utcnow = All_tests_passed"
proof -
  let ?st = "\<lparr>builds = [(0, \<lparr>build_name = ''global_build'', build_seq = 3\<rparr>),
                        (1, \<lparr>build_name = ''build'', build_seq = 0\<rparr>)],
              tests = [(0, \<lparr>test_name = ''test'', test_build_id = 1, test_seq = 3\<rparr>)],
              logs = zip [0 ..< 6]
                (three_logs utcnow 0 0 None @ three_logs utcnow 4 1 (Some 0))\<rparr>"
  let ?fx = "\<lparr>fx_global_build = 0, fx_build = 1, fx_test = 0, fx_db = ?st\<rparr>"
  have fx_eq: "test_setup utcnow = Some ?fx" by (rule test_setup_value)
  note mig = migrate_fixture [of utcnow]
  have before_a: "map snd (scope_logs ?st 0 None) = three_logs utcnow 0 0 None"
    by (simp add: scope_logs_def in_scope_def three_logs_def upt_rec)
  have before_b: "map snd (scope_logs ?st 1 (Some 0)) = three_logs utcnow 4 1 (Some 0)"
    by (simp add: scope_logs_def in_scope_def three_logs_def upt_rec)
  have after_a: "map snd (scope_logs (break_up_large_documents ?st) 0 None) =
      migrated_logs utcnow 0 0 None"
    unfolding mig
    by (simp add: scope_logs_def in_scope_def migrated_logs_def single_line_log_def)
  have after_b: "map snd (scope_logs (break_up_large_documents ?st) 1 (Some 0)) =
      migrated_logs utcnow 4 1 (Some 0)"
    unfolding mig
    by (simp add: scope_logs_def in_scope_def migrated_logs_def single_line_log_def)
  have counters_before: "counter_of build_seq (builds ?st) 0 = Some 3"
      "counter_of test_seq (tests ?st) 0 = Some 3"
    by (simp_all add: counter_of_def find_one_def has_id_def)
  have counters_after: "counter_of build_seq (builds (break_up_large_documents ?st)) 0 = Some 4"
      "counter_of test_seq (tests (break_up_large_documents ?st)) 0 = Some 4"
    unfolding mig by (simp_all add: counter_of_def find_one_def has_id_def)
  have direct: "scope_logs ?st 1 None = []"
      "scope_logs (break_up_large_documents ?st) 1 None = []"
    unfolding mig
    by (simp_all add: scope_logs_def in_scope_def three_logs_def upt_rec migrated_logs_def
        single_line_log_def)
  have ids: "scan_ids ?st = [0, 1, 2, 3, 4, 5]"
    by (simp add: scan_ids_def three_logs_def upt_rec)
  have throughout: "list_all (\<lambda>k. counter_of build_seq
                (builds (fold visit (take k (scan_ids ?st)) ?st)) 1 = Some 0)
         [0 ..< Suc (length (scan_ids ?st))]"
    unfolding ids
    by (simp add: upt_rec counter_of_def
      visit_def find_one_def has_id_def
      process_log_def split_log_def mk_new_log_def later_log_def update_many_def
      insert_many_def insert_one_def new_oid_def three_logs_def dates_def line_size_def
      max_size_def Let_def)
  have "test utcnow = test_checks ?fx (break_up_large_documents ?st)"
    unfolding test_def fx_eq by simp
  then have passed: "test utcnow = All_tests_passed"
    by (simp only: mig test_checks_fixture)
  show ?thesis
    using fx_eq before_a before_b after_a after_b counters_before counters_after direct
      throughout passed
    by (intro exI [of _ ?fx]) simp
qed

text \<open>
  Claim C7: for a log whose aggregate payload size is at most \<open>max_size\<close> the loop body
  writes nothing: the store after the iteration is the store before it (the log, its
  siblings and every \<^verbatim>\<open>seq\<close> counter included).
\<close>

theorem C7_compliant_log_no_write:
  "log_size (lines (snd entry)) \<le> max_size \<Longrightarrow> process_log st entry = st"
  by (rule process_log_compliant)

theorem C7_compliant_log_no_write_witness:
  "log_size (lines (snd (0, small_log))) \<le> max_size \<and>
   process_log small_store (0, small_log) = small_store \<and>
   break_up_large_documents small_store = small_store"
proof -
  have h: "log_size (lines (snd (0::nat, small_log))) \<le> max_size"
    by (simp add: small_log_def max_size_def)
  from C7_compliant_log_no_write [OF h]
  have p: "process_log st (0, small_log) = st" for st .
  have "break_up_large_documents small_store = small_store"
    by (simp add: break_up_large_documents_def scan_ids_def small_store_def visit_def
        find_one_def has_id_def p)
  with h p show ?thesis by simp
qed

text \<open>
  Claim C8 says that running the migration twice gives the same state as running it once,
  for every initial store. That fails on a store with a line that is by itself larger
  than \<open>max_size\<close>: every run replaces the log holding it by an empty log and a copy of
  it, and raises the owner's counter (see the counterexample below). Amended: for every
  initial store with unique log identities in which no single line is larger than
  \<open>max_size\<close>, running the migration twice gives the same state as running it once.
\<close>

theorem C8_idempotent_without_oversized_lines:
  assumes "distinct (map fst (logs st))"
    and "\<forall>e \<in> set (logs st). \<forall>l \<in> set (lines (snd e)). length (snd l) \<le> max_size"
  shows "break_up_large_documents (break_up_large_documents st) = break_up_large_documents st"
proof -
  let ?st' = "break_up_large_documents st"
  have "set (scan_ids st) = fst ` set (logs st)" by (simp add: scan_ids_def)
  with assms have "pending st (scan_ids st)"
    by (simp add: pending_def list_all_iff small_lines_def)
  then have "pending ?st' []"
    unfolding break_up_large_documents_def by (rule fold_visit_pending)
  then have "\<forall>e \<in> set (logs ?st'). log_size (lines (snd e)) \<le> max_size"
    by (simp add: pending_def list_all_iff)
  then have "fold visit (scan_ids ?st') ?st' = ?st'" by (rule fold_visit_all_compliant)
  then show ?thesis by (simp add: break_up_large_documents_def [of ?st'])
qed

text \<open>
  The counterexample to C8 as stated: a build with one log of one line of \<open>max_size + 1\<close>
  bytes. After one run the build counts 2 logs, after two runs 3.
\<close>

theorem C8_twice_differs_from_once:
  "map (\<lambda>e. build_seq (snd e)) (builds (break_up_large_documents one_log_store)) = [2] \<and>
   map (\<lambda>e. build_seq (snd e))
     (builds (break_up_large_documents (break_up_large_documents one_log_store))) = [3] \<and>
   length (logs (break_up_large_documents one_log_store)) = 2 \<and>
   length (logs (break_up_large_documents (break_up_large_documents one_log_store))) = 3 \<and>
   break_up_large_documents (break_up_large_documents one_log_store) \<noteq>
     break_up_large_documents one_log_store"
  by (simp only: one_log_store_twice) (simp add: one_log_store_once)

theorem C8_idempotent_without_oversized_lines_witness:
  "distinct (map fst (logs scenario_store)) \<and>
   list_all (\<lambda>e. list_all (\<lambda>l. length (snd l) \<le> max_size) (lines (snd e)))
     (logs scenario_store) \<and>
   break_up_large_documents (break_up_large_documents scenario_store) =
     break_up_large_documents scenario_store"
proof -
  have d: "distinct (map fst (logs scenario_store))" by (simp add: scenario_logs)
  have s: "list_all (\<lambda>e. list_all (\<lambda>l. length (snd l) \<le> max_size) (lines (snd e)))
     (logs scenario_store)"
    by (simp add: scenario_logs three_logs_def line_size_def max_size_def)
  then have s': "\<forall>e \<in> set (logs scenario_store). \<forall>l \<in> set (lines (snd e)).
      length (snd l) \<le> max_size"
    by (simp only: list_all_iff)
  from C8_idempotent_without_oversized_lines [OF d s'] d s show ?thesis by (intro conjI)
qed

text \<open>
  Claim C9: the driver visits the identities of the logs present at the start, in
  ascending order, each as often as it occurs in the store (once, identities being
  unique); iteration \<open>k\<close> visits the \<open>k\<close>-th of them. At every point of the scan each
  stored log either has one of these identities or an identity above all of them, and
  the next identity to be handed out is above all of them: a log inserted as a
  replacement is never visited.
\<close>

theorem C9_scan_once_ascending:
  "break_up_large_documents st = scan_state st (length (scan_ids st)) \<and>
   (\<forall>k < length (scan_ids st).
      scan_state st (Suc k) = visit (scan_ids st ! k) (scan_state st k)) \<and>
   sorted (scan_ids st) \<and> mset (scan_ids st) = mset (map fst (logs st)) \<and>
   (distinct (map fst (logs st)) \<longrightarrow> distinct (scan_ids st)) \<and>
   (\<forall>k \<le> length (scan_ids st).
      (\<forall>j \<in> set (scan_ids st). j < new_oid (logs (scan_state st k))) \<and>
      (\<forall>e \<in> set (logs (scan_state st k)).
         fst e \<in> set (scan_ids st) \<or> (\<forall>j \<in> set (scan_ids st). j < fst e)))"
proof (intro conjI allI impI)
  show "break_up_large_documents st = scan_state st (length (scan_ids st))"
    by (simp add: break_up_large_documents_def scan_state_def)
  show "sorted (scan_ids st)" by (simp add: scan_ids_def)
  show "mset (scan_ids st) = mset (map fst (logs st))" by (simp add: scan_ids_def)
  show "distinct (scan_ids st)" if "distinct (map fst (logs st))"
    using that by (simp add: scan_ids_def)
next
  fix k assume "k < length (scan_ids st)"
  then show "scan_state st (Suc k) = visit (scan_ids st ! k) (scan_state st k)"
    by (rule scan_state_Suc)
next
  fix k
  have ids: "set (scan_ids st) = fst ` set (logs st)" by (simp add: scan_ids_def)
  have below: "j < new_oid (logs st)" if "j \<in> set (scan_ids st)" for j
    using that new_oid_fresh [of _ "logs st"] unfolding ids by auto
  note b = fold_visit_ids_bound [of st "take k (scan_ids st)"]
  show "\<forall>j \<in> set (scan_ids st). j < new_oid (logs (scan_state st k))"
  proof
    fix j assume "j \<in> set (scan_ids st)"
    then have "j < new_oid (logs st)" by (rule below)
    with b show "j < new_oid (logs (scan_state st k))" unfolding scan_state_def by linarith
  qed
  show "\<forall>e \<in> set (logs (scan_state st k)).
         fst e \<in> set (scan_ids st) \<or> (\<forall>j \<in> set (scan_ids st). j < fst e)"
  proof
    fix e assume "e \<in> set (logs (scan_state st k))"
    with b have "fst e \<in> fst ` set (logs st) \<or> new_oid (logs st) \<le> fst e"
      unfolding scan_state_def by blast
    then show "fst e \<in> set (scan_ids st) \<or> (\<forall>j \<in> set (scan_ids st). j < fst e)"
    proof
      assume "fst e \<in> fst ` set (logs st)"
      then show ?thesis by (simp only: ids disjI1)
    next
      assume ge: "new_oid (logs st) \<le> fst e"
      have "\<forall>j \<in> set (scan_ids st). j < fst e"
      proof
        fix j assume "j \<in> set (scan_ids st)"
        then have "j < new_oid (logs st)" by (rule below)
        with ge show "j < fst e" by simp
      qed
      then show ?thesis by (rule disjI2)
    qed
  qed
qed

theorem C9_scan_once_ascending_witness:
  "distinct (map fst (logs scenario_store)) \<and>
   scan_ids scenario_store = [0, 1, 2, 3, 4, 5] \<and>
   distinct (scan_ids scenario_store) \<and>
   (2 :: nat) \<le> length (scan_ids scenario_store) \<and>
   5 < new_oid (logs (scan_state scenario_store 2)) \<and>
   map fst (logs (scan_state scenario_store 2)) = [0, 2, 3, 4, 5, 6, 7] \<and>
   map fst (logs (break_up_large_documents scenario_store)) = [0, 2, 3, 5, 6, 7, 8, 9]"
proof -
  note T = C9_scan_once_ascending [of scenario_store]
  have d: "distinct (map fst (logs scenario_store))" by (simp add: scenario_logs)
  from T d have d': "distinct (scan_ids scenario_store)" by blast
  have k: "(2 :: nat) \<le> length (scan_ids scenario_store)" by (simp add: scenario_scan_ids)
  from T k have "\<forall>j \<in> set (scan_ids scenario_store). j < new_oid (logs (scan_state scenario_store 2))"
    by blast
  then have n: "5 < new_oid (logs (scan_state scenario_store 2))"
    by (simp add: scenario_scan_ids)
  have s2: "map fst (logs (scan_state scenario_store 2)) = [0, 2, 3, 4, 5, 6, 7]"
    unfolding scan_state_def scenario_scan_ids
    by (simp add: scenario_store_def visit_def find_one_def has_id_eq
      process_log_def split_log_def mk_new_log_def later_log_def update_many_def
      insert_many_def insert_one_def new_oid_def three_logs_def dates_def line_size_def
      max_size_def Let_def upt_rec)
  have fin: "map fst (logs (break_up_large_documents scenario_store)) = [0, 2, 3, 5, 6, 7, 8, 9]"
    by (simp add: scenario_migrated)
  from d scenario_scan_ids d' k n s2 fin show ?thesis by (intro conjI)
qed

text \<open>
  Claim C10: when the first line of a log is by itself larger than \<open>max_size\<close>, the first
  chunk the splitter returns has no lines and carries the original \<^verbatim>\<open>seq\<close>, and it is
  stored by the iteration that processes the log; and in every split each returned chunk
  other than the first one holds at least one line.
\<close>

theorem C10_first_chunk_empty_later_chunks_nonempty:
  "(lines log = line # rest \<and> max_size < length (snd line) \<longrightarrow>
      hd (snd (split_log log)) = mk_new_log log (seq log) \<and>
      lines (hd (snd (split_log log))) = [] \<and>
      seq (hd (snd (split_log log))) = seq log \<and>
      ((i, log) \<in> set (logs st) \<longrightarrow>
         (\<exists>j. (j, mk_new_log log (seq log)) \<in> set (logs (process_log st (i, log)))))) \<and>
   (\<forall>c \<in> set (tl (snd (split_log log))). lines c \<noteq> [])"
proof (intro conjI impI)
  show "\<forall>c \<in> set (tl (snd (split_log log))). lines c \<noteq> []"
    by (rule split_log_tl_nonempty_lines)
next
  assume a: "lines log = line # rest \<and> max_size < length (snd line)"
  then have hd: "hd (snd (split_log log)) = mk_new_log log (seq log)"
    by (intro split_log_first_oversized) auto
  show "hd (snd (split_log log)) = mk_new_log log (seq log)" by (rule hd)
  show "lines (hd (snd (split_log log))) = []" by (simp add: hd mk_new_log_def)
  show "seq (hd (snd (split_log log))) = seq log" by (simp add: hd mk_new_log_def)
  assume m: "(i, log) \<in> set (logs st)"
  from a have big: "max_size < log_size (lines (snd (i, log)))" by simp
  let ?nl = "snd (split_log log)"
  let ?n = "new_oid (logs st)"
  from split_log_nonempty [of log] hd obtain ys where nl: "?nl = mk_new_log log (seq log) # ys"
    by (cases ?nl) auto
  have "(?n, mk_new_log log (seq log)) \<in> set (zip [?n ..< ?n + length ?nl] ?nl)"
    unfolding nl by (rule zip_upt_first)
  then have "(?n, mk_new_log log (seq log)) \<in> set (logs (process_log st (i, log)))"
    using process_log_logs [OF m big] by simp
  then show "\<exists>j. (j, mk_new_log log (seq log)) \<in> set (logs (process_log st (i, log)))" ..
qed

theorem C10_first_chunk_empty_later_chunks_nonempty_witness:
  "lines one_big_line_log =
     (Datetime 2015 1 1 0 0 0 0, replicate (max_size + 1) CHR ''x'') # [] \<and>
   max_size < length (snd (Datetime 2015 1 1 0 0 0 0, replicate (max_size + 1) CHR ''x'')) \<and>
   (0, one_big_line_log) \<in> set (logs one_log_store) \<and>
   lines (hd (snd (split_log one_big_line_log))) = [] \<and>
   seq (hd (snd (split_log one_big_line_log))) = 1 \<and>
   (\<exists>j. (j, mk_new_log one_big_line_log 1) \<in>
      set (logs (process_log one_log_store (0, one_big_line_log)))) \<and>
   list_all (\<lambda>c. lines c \<noteq> []) (tl (snd (split_log one_big_line_log)))"
  using C10_first_chunk_empty_later_chunks_nonempty
    [of one_big_line_log "(Datetime 2015 1 1 0 0 0 0, replicate (max_size + 1) CHR ''x'')" "[]"
        0 one_log_store]
  by (simp add: list_all_iff one_big_line_log_def one_log_store_def mk_new_log_def)

end
